theory Spec2Isabelle
  imports Complex_Main "HOL-Library.Word"
begin

section \<open>Raw pixel buffers\<close>

text \<open>
  The engines of \<^verbatim>\<open>src/alpha.ts\<close> work on what the decoder hands them: a buffer of
  bytes and the image's width and height. Decoding and encoding are external; the
  functions below start at the decoded buffers and end at the buffer given to the encoder.

  A JavaScript \<^verbatim>\<open>number\<close> that is finite is a real number; \<^verbatim>\<open>undefined\<close> (an
  out-of-range read) and \<^verbatim>\<open>NaN\<close> are \<open>None\<close> of \<open>real option\<close>. In the difference
  matting every arithmetic operation and \<^verbatim>\<open>Math.sqrt\<close> is followed by the rounding to
  the nearest double, on which the recovered colour depends. The chroma key is modelled
  over exact real arithmetic.
\<close>

type_synonym byte = "8 word"

record raw_image =
  width :: nat
  height :: nat
  data :: "byte list"

datatype error = DimensionMismatch | InvalidColor string | InvalidTolerance

text \<open>\<^verbatim>\<open>buf[k]\<close>: the byte as a number, \<^verbatim>\<open>undefined\<close> outside the buffer.\<close>

definition rd :: "byte list \<Rightarrow> nat \<Rightarrow> real option" where
  "rd buf k = (if k < length buf then Some (real (unat (buf ! k))) else None)"

text \<open>The same read at an offset that was computed by subtraction and may be negative.\<close>

definition rdAt :: "byte list \<Rightarrow> int \<Rightarrow> real option" where
  "rdAt buf k = (if k < 0 then None else rd buf (nat k))"

text \<open>
  \<^verbatim>\<open>buf[k] = v\<close> for an integral number \<open>v\<close>: the store keeps \<open>v\<close> modulo 256, and a
  store outside the buffer is dropped.
\<close>

definition wr :: "byte list \<Rightarrow> nat \<Rightarrow> int \<Rightarrow> byte list" where
  "wr buf k v = buf[k := word_of_int v]"

section \<open>Double-precision arithmetic\<close>

text \<open>The nearest integer to a real number, a tie going to the even one.\<close>

definition rne :: "real \<Rightarrow> int" where
  "rne y =
     (let f = \<lfloor>y\<rfloor>
      in if y - of_int f < 1 / 2 then f
         else if 1 / 2 < y - of_int f then f + 1
         else if even f then f else f + 1)"

text \<open>
  The nearest double to a real number: a significand of 53 bits, a tie going to the even
  significand. With \<open>e\<close> the binary exponent of \<open>x\<close>, the doubles around \<open>x\<close> are the
  multiples of \<open>2 powr (e - 52)\<close>. Overflow and subnormal numbers are left out: the
  magnitudes that occur in the difference matting are 0 or lie between \<open>2 powr (- 53)\<close>
  and \<open>2 powr 18\<close>.
\<close>

definition dbl :: "real \<Rightarrow> real" where
  "dbl x =
     (if x = 0 then 0
      else
        (let e = \<lfloor>log 2 \<bar>x\<bar>\<rfloor>;
             ulp = 2 powr (of_int e - 52)
         in sgn x * (of_int (rne (\<bar>x\<bar> / ulp)) * ulp)))"

text \<open>
  The operations of the language on doubles: the exact result, rounded once.
\<close>

definition fadd :: "real \<Rightarrow> real \<Rightarrow> real" where
  "fadd x y = dbl (x + y)"

definition fsub :: "real \<Rightarrow> real \<Rightarrow> real" where
  "fsub x y = dbl (x - y)"

definition fmul :: "real \<Rightarrow> real \<Rightarrow> real" where
  "fmul x y = dbl (x * y)"

definition fdiv :: "real \<Rightarrow> real \<Rightarrow> real" where
  "fdiv x y = dbl (x / y)"

definition fsqrt :: "real \<Rightarrow> real" where
  "fsqrt x = dbl (sqrt x)"

section \<open>Difference matting: \<^verbatim>\<open>extractAlphaTwoPass\<close>\<close>

definition bgDist :: real where
  "bgDist = fsqrt (fmul (fmul 3 255) 255)"

text \<open>The alpha from the distance of the two colours, clamped to the range from 0 to 1.\<close>

definition alphaOfDist :: "real \<Rightarrow> real" where
  "alphaOfDist pixelDist =
     (let alpha0 = fsub 1 (fdiv pixelDist bgDist);
          alpha1 = (if alpha0 < 0 then 0 else alpha0)
      in if alpha1 > 1 then 1 else alpha1)"

text \<open>The alpha of a pixel from its six channel values.\<close>

definition matteAlpha :: "real \<Rightarrow> real \<Rightarrow> real \<Rightarrow> real \<Rightarrow> real \<Rightarrow> real \<Rightarrow> real" where
  "matteAlpha rW gW bW rB gB bB =
    (let drWB = fsub rW rB;
         dgWB = fsub gW gB;
         dbWB = fsub bW bB;
         pixelDist = fsqrt (fadd (fadd (fmul drWB drWB) (fmul dgWB dgWB)) (fmul dbWB dbWB))
     in alphaOfDist pixelDist)"

text \<open>
  The body of the pixel loop once the six channel values are read: the four numbers
  passed to \<^verbatim>\<open>Math.round\<close>, rounded. \<^verbatim>\<open>Math.round x\<close> is \<open>\<lfloor>x + 1/2\<rfloor>\<close>, which is
  \<^const>\<open>round\<close>, and \<^verbatim>\<open>Math.min\<close> is exact. The literal \<^verbatim>\<open>0.01\<close> is the double
  nearest to \<open>1 / 100\<close>.
\<close>

definition mattePixel :: "real \<Rightarrow> real \<Rightarrow> real \<Rightarrow> real \<Rightarrow> real \<Rightarrow> real \<Rightarrow> int \<times> int \<times> int \<times> int" where
  "mattePixel rW gW bW rB gB bB =
    (let alpha = matteAlpha rW gW bW rB gB bB;
         rOut = (if alpha > dbl (1 / 100) then fdiv rB alpha else 0);
         gOut = (if alpha > dbl (1 / 100) then fdiv gB alpha else 0);
         bOut = (if alpha > dbl (1 / 100) then fdiv bB alpha else 0)
     in (round (min 255 rOut), round (min 255 gOut), round (min 255 bOut), round (fmul alpha 255)))"

text \<open>
  The four rounded numbers of pixel \<open>i\<close>. When a read is \<^verbatim>\<open>undefined\<close> the distance
  and the alpha are \<^verbatim>\<open>NaN\<close>, the three comparisons on alpha are false, the colour stays
  \<open>0\<close> and \<^verbatim>\<open>Math.round(NaN)\<close> is stored as byte \<open>0\<close>.
\<close>

definition twoPassPixel :: "byte list \<Rightarrow> byte list \<Rightarrow> nat \<Rightarrow> int \<times> int \<times> int \<times> int" where
  "twoPassPixel dataWhite dataBlack i =
    (let offset = i * 4
     in case (rd dataWhite offset, rd dataWhite (offset + 1), rd dataWhite (offset + 2),
              rd dataBlack offset, rd dataBlack (offset + 1), rd dataBlack (offset + 2)) of
          (Some rW, Some gW, Some bW, Some rB, Some gB, Some bB) \<Rightarrow> mattePixel rW gW bW rB gB bB
        | _ \<Rightarrow> (0, 0, 0, 0))"

text \<open>One iteration of the loop: the four stores into the output buffer.\<close>

definition twoPassStep :: "byte list \<Rightarrow> byte list \<Rightarrow> byte list \<Rightarrow> nat \<Rightarrow> byte list" where
  "twoPassStep dataWhite dataBlack outputBuffer i =
    (let offset = i * 4
     in case twoPassPixel dataWhite dataBlack i of (rv, gv, bv, av) \<Rightarrow>
          wr (wr (wr (wr outputBuffer offset rv) (offset + 1) gv) (offset + 2) bv) (offset + 3) av)"

definition extractAlphaTwoPass :: "raw_image \<Rightarrow> raw_image \<Rightarrow> error + raw_image" where
  "extractAlphaTwoPass imgOnWhite imgOnBlack =
    (let dataWhite = data imgOnWhite;
         dataBlack = data imgOnBlack
     in if length dataWhite \<noteq> length dataBlack then Inl DimensionMismatch
        else
          (let outputBuffer = replicate (length dataWhite) (0 :: byte);
               pixelCount = width imgOnWhite * height imgOnWhite
           in Inr \<lparr>width = width imgOnWhite, height = height imgOnWhite,
                   data = foldl (twoPassStep dataWhite dataBlack) outputBuffer [0..<pixelCount]\<rparr>))"

section \<open>Chroma key: \<^verbatim>\<open>parseColor\<close> and \<^verbatim>\<open>removeBackgroundLocal\<close>\<close>

definition isHexDigit :: "char \<Rightarrow> bool" where
  "isHexDigit c \<longleftrightarrow>
     (let n = (of_char c :: nat)
      in (48 \<le> n \<and> n \<le> 57) \<or> (97 \<le> n \<and> n \<le> 102) \<or> (65 \<le> n \<and> n \<le> 70))"

definition hexDigitValue :: "char \<Rightarrow> nat" where
  "hexDigitValue c =
     (let n = (of_char c :: nat)
      in if n \<le> 57 then n - 48 else if 97 \<le> n then n - 87 else n - 55)"

text \<open>\<^verbatim>\<open>parseInt(s, 16)\<close> on a string of hex digits.\<close>

definition parseHex :: "string \<Rightarrow> nat" where
  "parseHex s = foldl (\<lambda>acc c. acc * 16 + hexDigitValue c) 0 s"

text \<open>
  \<^verbatim>\<open>color.replace('#', '')\<close> removes the first \<^verbatim>\<open>#\<close> only, which is \<^const>\<open>remove1\<close>;
  the pattern \<^verbatim>\<open>/^[0-9a-fA-F]{6}$/\<close> asks for exactly six hex digits.
\<close>

definition parseColor :: "string \<Rightarrow> error + real \<times> real \<times> real" where
  "parseColor color =
    (if color = ''white'' then Inr (255, 255, 255)
     else if color = ''black'' then Inr (0, 0, 0)
     else
       (let hex = remove1 (CHR ''#'') color
        in if \<not> (length hex = 6 \<and> list_all isHexDigit hex) then Inl (InvalidColor color)
           else Inr (real (parseHex (take 2 hex)),
                     real (parseHex (take 2 (drop 2 hex))),
                     real (parseHex (take 2 (drop 4 hex))))))"

text \<open>Arithmetic on numbers that may be \<^verbatim>\<open>NaN\<close>: a \<^verbatim>\<open>NaN\<close> operand gives \<^verbatim>\<open>NaN\<close>.\<close>

definition jadd :: "real option \<Rightarrow> real option \<Rightarrow> real option" where
  "jadd x y = (case (x, y) of (Some a, Some b) \<Rightarrow> Some (a + b) | _ \<Rightarrow> None)"

definition jsub :: "real option \<Rightarrow> real option \<Rightarrow> real option" where
  "jsub x y = (case (x, y) of (Some a, Some b) \<Rightarrow> Some (a - b) | _ \<Rightarrow> None)"

definition jmul :: "real option \<Rightarrow> real option \<Rightarrow> real option" where
  "jmul x y = (case (x, y) of (Some a, Some b) \<Rightarrow> Some (a * b) | _ \<Rightarrow> None)"

text \<open>
  Division of finite numbers: by zero the quotient is \<^verbatim>\<open>Infinity\<close>, \<^verbatim>\<open>-Infinity\<close> or
  \<^verbatim>\<open>NaN\<close>, no finite number, and is \<open>None\<close>.
\<close>

definition jdiv :: "real \<Rightarrow> real \<Rightarrow> real option" where
  "jdiv a b = (if b = 0 then None else Some (a / b))"

text \<open>\<^verbatim>\<open>Math.round(s / 4)\<close>.\<close>

definition roundQuarter :: "real option \<Rightarrow> real option" where
  "roundQuarter s = map_option (\<lambda>v. real_of_int (round (v / 4))) s"

type_synonym bg_color = "real option \<times> real option \<times> real option"

definition cornerOffsets :: "raw_image \<Rightarrow> int list" where
  "cornerOffsets info =
     [0,
      (int (width info) - 1) * 4,
      (int (height info) - 1) * int (width info) * 4,
      ((int (height info) - 1) * int (width info) + (int (width info) - 1)) * 4]"

text \<open>The loop over the corners, accumulating \<^verbatim>\<open>rSum\<close>, \<^verbatim>\<open>gSum\<close> and \<^verbatim>\<open>bSum\<close>.\<close>

definition addCorner :: "byte list \<Rightarrow> bg_color \<Rightarrow> int \<Rightarrow> bg_color" where
  "addCorner buf acc offset =
     (case acc of (rSum, gSum, bSum) \<Rightarrow>
        (jadd rSum (rdAt buf offset),
         jadd gSum (rdAt buf (offset + 1)),
         jadd bSum (rdAt buf (offset + 2))))"

definition sumCorners :: "byte list \<Rightarrow> int list \<Rightarrow> bg_color" where
  "sumCorners buf corners = foldl (addCorner buf) (Some 0, Some 0, Some 0) corners"

text \<open>The branch of \<^verbatim>\<open>removeBackgroundLocal\<close> taken when no background colour is given.\<close>

definition autoBgColor :: "raw_image \<Rightarrow> bg_color" where
  "autoBgColor img =
     (case sumCorners (data img) (cornerOffsets img) of
        (rSum, gSum, bSum) \<Rightarrow> (roundQuarter rSum, roundQuarter gSum, roundQuarter bSum))"

text \<open>
  The alpha of one pixel from its squared distance. A \<^verbatim>\<open>NaN\<close> distance fails both
  comparisons and gives alpha \<open>1\<close>.
\<close>

definition pixelAlpha :: "real \<Rightarrow> real option \<Rightarrow> real option" where
  "pixelAlpha tolerance distSquared =
    (let toleranceSquared = tolerance * tolerance;
         doubleToleranceSquared = (tolerance * 2) * (tolerance * 2)
     in case distSquared of
          None \<Rightarrow> Some 1
        | Some d \<Rightarrow>
            if d \<le> toleranceSquared then Some 0
            else if d \<le> doubleToleranceSquared then jdiv (sqrt d - tolerance) tolerance
            else Some 1)"

text \<open>
  \<^verbatim>\<open>Math.round(alpha * 255)\<close> as stored: a value that is not finite is stored as \<open>0\<close>.
\<close>

definition alphaNumber :: "real option \<Rightarrow> int" where
  "alphaNumber alpha = (case alpha of None \<Rightarrow> 0 | Some a \<Rightarrow> round (a * 255))"

definition distSquaredAt :: "bg_color \<Rightarrow> byte list \<Rightarrow> nat \<Rightarrow> real option" where
  "distSquaredAt bgColor buf i =
    (let offset = i * 4;
         r = rd buf offset;
         g = rd buf (offset + 1);
         b = rd buf (offset + 2);
         dr = jsub r (fst bgColor);
         dg = jsub g (fst (snd bgColor));
         db = jsub b (snd (snd bgColor))
     in jadd (jadd (jmul dr dr) (jmul dg dg)) (jmul db db))"

text \<open>One iteration of the pixel loop, on the buffer that is updated in place.\<close>

definition chromaStep :: "real \<Rightarrow> bg_color \<Rightarrow> byte list \<Rightarrow> nat \<Rightarrow> byte list" where
  "chromaStep tolerance bgColor buf i =
     wr buf (i * 4 + 3) (alphaNumber (pixelAlpha tolerance (distSquaredAt bgColor buf i)))"

definition someColor :: "real \<times> real \<times> real \<Rightarrow> bg_color" where
  "someColor c = (case c of (r, g, b) \<Rightarrow> (Some r, Some g, Some b))"

text \<open>
  The background colour of a run: an absent colour, the empty string and \<^verbatim>\<open>'auto'\<close>
  take the corner estimate, anything else is parsed and may be refused.
\<close>

definition resolveBgColor :: "raw_image \<Rightarrow> string option \<Rightarrow> error + bg_color" where
  "resolveBgColor img bgColorOption =
     (case bgColorOption of
        None \<Rightarrow> Inr (autoBgColor img)
      | Some c \<Rightarrow>
          if c = [] \<or> c = ''auto'' then Inr (autoBgColor img)
          else (case parseColor c of Inl e \<Rightarrow> Inl e | Inr rgb \<Rightarrow> Inr (someColor rgb)))"

text \<open>
  The options object is the pair of an optional colour and an optional tolerance; an
  absent tolerance is \<open>30\<close>. The buffer is updated in place, pixel by pixel.
\<close>

definition removeBackgroundLocal :: "raw_image \<Rightarrow> string option \<Rightarrow> real option \<Rightarrow> error + raw_image" where
  "removeBackgroundLocal img bgColorOption toleranceOption =
    (let tolerance = (case toleranceOption of None \<Rightarrow> 30 | Some t \<Rightarrow> t)
     in case resolveBgColor img bgColorOption of
          Inl e \<Rightarrow> Inl e
        | Inr bgColor \<Rightarrow>
            (let pixelCount = width img * height img
             in Inr \<lparr>width = width img, height = height img,
                     data = foldl (chromaStep tolerance bgColor) (data img) [0..<pixelCount]\<rparr>))"

text \<open>The decoder's contract: four bytes for each pixel, nothing else.\<close>

definition wellFormed :: "raw_image \<Rightarrow> bool" where
  "wellFormed img \<longleftrightarrow> length (data img) = width img * height img * 4"

section \<open>The formulas of the specification\<close>

text \<open>
  The words of the specification, to state the claims with: \<open>clamp(x, 0, 1)\<close>, the
  value of a channel byte, and the Euclidean distance between the white-pass and the
  black-pass colour of pixel \<open>i\<close>.
\<close>

definition clamp01 :: "real \<Rightarrow> real" where
  "clamp01 x = max 0 (min 1 x)"

definition channel :: "byte list \<Rightarrow> nat \<Rightarrow> real" where
  "channel buf k = real (unat (buf ! k))"

definition pixelDistAt :: "byte list \<Rightarrow> byte list \<Rightarrow> nat \<Rightarrow> real" where
  "pixelDistAt dw db i =
     sqrt ((channel dw (i * 4) - channel db (i * 4))\<^sup>2
         + (channel dw (i * 4 + 1) - channel db (i * 4 + 1))\<^sup>2
         + (channel dw (i * 4 + 2) - channel db (i * 4 + 2))\<^sup>2)"

text \<open>Two buffers of one length that agree on every byte that is not an alpha byte.\<close>

definition sameRGB :: "byte list \<Rightarrow> byte list \<Rightarrow> bool" where
  "sameRGB a b \<longleftrightarrow> length a = length b \<and> (\<forall>p. p mod 4 \<noteq> 3 \<longrightarrow> a ! p = b ! p)"

text \<open>
  The specification's corner average for channel \<open>k\<close>: the rounded quarter of the sum
  over the top-left, top-right, bottom-left and bottom-right pixel.
\<close>

definition cornerAverage :: "raw_image \<Rightarrow> nat \<Rightarrow> real" where
  "cornerAverage img k =
     (let w = width img; h = height img; d = data img
      in real_of_int (round ((channel d (0 + k) + channel d ((w - 1) * 4 + k)
                              + channel d ((h - 1) * w * 4 + k)
                              + channel d (((h - 1) * w + (w - 1)) * 4 + k)) / 4)))"

text \<open>The alpha of pixel \<open>i\<close> as the specification writes it.\<close>

definition alphaAt :: "byte list \<Rightarrow> byte list \<Rightarrow> nat \<Rightarrow> real" where
  "alphaAt dw db i = clamp01 (1 - pixelDistAt dw db i / sqrt (3 * 255\<^sup>2))"

text \<open>The alpha that the loop of the difference matting computes for pixel \<open>i\<close>.\<close>

definition computedAlpha :: "byte list \<Rightarrow> byte list \<Rightarrow> nat \<Rightarrow> real" where
  "computedAlpha dw db i =
     matteAlpha (channel dw (i * 4)) (channel dw (i * 4 + 1)) (channel dw (i * 4 + 2))
                (channel db (i * 4)) (channel db (i * 4 + 1)) (channel db (i * 4 + 2))"



text \<open>Half the distance of neighbouring doubles, relative to their size.\<close>

definition u53 :: real where
  "u53 = 1 / 2 ^ 53"

text \<open>Whole numbers of bounded size, and the values of bytes.\<close>

definition small :: "real \<Rightarrow> real \<Rightarrow> bool" where
  "small b x \<longleftrightarrow> x \<in> \<int> \<and> \<bar>x\<bar> \<le> b"

definition isByte :: "real \<Rightarrow> bool" where
  "isByte x \<longleftrightarrow> x \<in> \<int> \<and> 0 \<le> x \<and> x \<le> 255"

section \<open>Rounding to doubles\<close>

lemma rne_cases: "rne y = \<lfloor>y\<rfloor> \<or> rne y = \<lfloor>y\<rfloor> + 1"
  by (simp add: rne_def Let_def)

lemma rne_error: "\<bar>of_int (rne y) - y\<bar> \<le> 1 / 2"
proof -
  have "of_int \<lfloor>y\<rfloor> \<le> y" "y < of_int \<lfloor>y\<rfloor> + 1" by linarith+
  then show ?thesis
    by (auto simp add: rne_def Let_def split: if_splits)
qed

lemma rne_of_int [simp]: "rne (of_int n) = n"
  by (simp add: rne_def)

lemma rne_numeral [simp]: "rne (numeral n) = numeral n"
  using rne_of_int [of "numeral n"] by simp

lemma rne_mono: "y \<le> z \<Longrightarrow> rne y \<le> rne z"
proof -
  assume yz: "y \<le> z"
  show ?thesis
  proof (cases "\<lfloor>y\<rfloor> = \<lfloor>z\<rfloor>")
    case True
    then show ?thesis using yz
      by (auto simp add: rne_def Let_def split: if_splits)
  next
    case False
    then have "\<lfloor>y\<rfloor> + 1 \<le> \<lfloor>z\<rfloor>" using floor_mono [OF yz] by linarith
    then show ?thesis using rne_cases [of y] rne_cases [of z] by linarith
  qed
qed

lemma dbl_zero [simp]: "dbl 0 = 0"
  by (simp add: dbl_def)

lemma dbl_minus: "dbl (- x) = - dbl x"
  by (simp add: dbl_def Let_def sgn_minus)

lemma exponent_bounds:
  assumes "0 < x"
  shows "2 powr of_int \<lfloor>log 2 x\<rfloor> \<le> x" and "x < 2 powr (of_int \<lfloor>log 2 x\<rfloor> + 1)"
  using floor_log_eq_powr_iff [of x 2 "\<lfloor>log 2 x\<rfloor>"] assms by simp_all

lemma dbl_pos_eq:
  assumes "0 < x"
  shows "dbl x = of_int (rne (x / 2 powr (of_int \<lfloor>log 2 x\<rfloor> - 52))) * 2 powr (of_int \<lfloor>log 2 x\<rfloor> - 52)"
  using assms by (simp add: dbl_def Let_def)

lemma dbl_eqI:
  assumes "2 powr of_int e \<le> x" and "x < 2 powr (of_int e + 1)"
  shows "dbl x = of_int (rne (x / 2 powr (of_int e - 52))) * 2 powr (of_int e - 52)"
proof -
  have pos: "0 < x" using assms(1) by (rule less_le_trans [rotated]) simp
  have "\<lfloor>log 2 x\<rfloor> = e"
    using floor_log_eq_powr_iff [of x 2 e] pos assms by simp
  then show ?thesis using dbl_pos_eq [OF pos] by simp
qed

lemma significand_bounds:
  fixes x :: real
  assumes "2 powr of_int e \<le> x" and "x < 2 powr (of_int e + 1)"
  shows "2 ^ 52 \<le> x / 2 powr (of_int e - 52)" and "x / 2 powr (of_int e - 52) < 2 ^ 53"
proof -
  have u: "(2::real) powr (of_int e - 52) = 2 powr of_int e / 2 ^ 52"
    by (simp add: powr_diff)
  have p: "0 < (2::real) powr of_int e" by simp
  show "2 ^ 52 \<le> x / 2 powr (of_int e - 52)"
    unfolding u using assms(1) p by (simp add: field_simps)
  have "(2::real) powr (of_int e + 1) = 2 * 2 powr of_int e"
    by (simp add: powr_add)
  then show "x / 2 powr (of_int e - 52) < 2 ^ 53"
    unfolding u using assms(2) p by (simp add: field_simps)
qed

lemma rne_significand:
  assumes "2 powr of_int e \<le> x" and "x < 2 powr (of_int e + 1)"
  shows "2 ^ 52 \<le> rne (x / 2 powr (of_int e - 52))" and "rne (x / 2 powr (of_int e - 52)) \<le> 2 ^ 53"
proof -
  note b = significand_bounds [OF assms]
  have "rne (of_int (2 ^ 52)) \<le> rne (x / 2 powr (of_int e - 52))"
    by (rule rne_mono) (use b(1) in simp)
  then show "2 ^ 52 \<le> rne (x / 2 powr (of_int e - 52))" by simp
  have "rne (x / 2 powr (of_int e - 52)) \<le> rne (of_int (2 ^ 53))"
    by (rule rne_mono) (use b(2) in simp)
  then show "rne (x / 2 powr (of_int e - 52)) \<le> 2 ^ 53" by simp
qed

lemma dbl_range:
  assumes "2 powr of_int e \<le> x" and "x < 2 powr (of_int e + 1)"
  shows "2 powr of_int e \<le> dbl x" and "dbl x \<le> 2 powr (of_int e + 1)"
proof -
  let ?u = "(2::real) powr (of_int e - 52)"
  let ?m = "rne (x / ?u)"
  note r = rne_significand [OF assms]
  have d: "dbl x = of_int ?m * ?u" by (rule dbl_eqI [OF assms])
  have u: "0 < ?u" by simp
  have lo: "2 ^ 52 * ?u = 2 powr of_int e" by (simp add: powr_diff)
  have hi: "2 ^ 53 * ?u = 2 powr (of_int e + 1)" by (simp add: powr_diff powr_add)
  have "(2 ^ 52 :: real) \<le> of_int ?m" using r(1) by (simp add: numeral_power_le_of_int_cancel_iff)
  then have "2 ^ 52 * ?u \<le> of_int ?m * ?u" using u by (simp only: mult_le_cancel_right) simp
  then show "2 powr of_int e \<le> dbl x" unfolding d lo .
  have "of_int ?m \<le> (2 ^ 53 :: real)" using r(2) by (simp add: of_int_le_numeral_power_cancel_iff)
  then have "of_int ?m * ?u \<le> 2 ^ 53 * ?u" using u by (simp only: mult_le_cancel_right) simp
  then show "dbl x \<le> 2 powr (of_int e + 1)" unfolding d hi .
qed

lemma dbl_pos_error:
  assumes "0 < x"
  shows "\<bar>dbl x - x\<bar> \<le> x / 2 ^ 53"
proof -
  define e where "e = \<lfloor>log 2 x\<rfloor>"
  let ?u = "(2::real) powr (of_int e - 52)"
  have b: "2 powr of_int e \<le> x" "x < 2 powr (of_int e + 1)"
    using exponent_bounds [OF assms] by (simp_all add: e_def)
  have d: "dbl x = of_int (rne (x / ?u)) * ?u" by (rule dbl_eqI [OF b])
  have u: "0 < ?u" by simp
  have "dbl x - x = (of_int (rne (x / ?u)) - x / ?u) * ?u"
    unfolding d using u by (simp add: field_simps)
  then have "\<bar>dbl x - x\<bar> = \<bar>of_int (rne (x / ?u)) - x / ?u\<bar> * ?u"
    using u by (simp add: abs_mult)
  also have "\<dots> \<le> 1 / 2 * ?u"
    using rne_error [of "x / ?u"] u by (simp only: mult_le_cancel_right) simp
  also have "\<dots> = 2 powr of_int e / 2 ^ 53"
    by (simp add: powr_diff)
  also have "\<dots> \<le> x / 2 ^ 53"
    using b(1) by (simp add: divide_right_mono)
  finally show ?thesis .
qed

lemma dbl_error: "\<bar>dbl x - x\<bar> \<le> \<bar>x\<bar> / 2 ^ 53"
proof -
  consider "x = 0" | "0 < x" | "x < 0" by linarith
  then show ?thesis
  proof cases
    case 1
    then show ?thesis by simp
  next
    case 2
    then show ?thesis using dbl_pos_error [of x] by simp
  next
    case 3
    then have "\<bar>dbl (- x) - (- x)\<bar> \<le> (- x) / 2 ^ 53"
      by (intro dbl_pos_error) simp
    then show ?thesis using 3 by (simp add: dbl_minus abs_minus_commute)
  qed
qed

lemma dbl_pos: "0 < x \<Longrightarrow> 0 < dbl x"
proof -
  assume x: "0 < x"
  have "(0::real) < 2 powr of_int \<lfloor>log 2 x\<rfloor>" by simp
  also have "\<dots> \<le> dbl x"
    using dbl_range(1) [OF exponent_bounds [OF x]] .
  finally show ?thesis .
qed

lemma dbl_pos_mono:
  assumes "0 < x" and "x \<le> y"
  shows "dbl x \<le> dbl y"
proof -
  define ex where "ex = \<lfloor>log 2 x\<rfloor>"
  define ey where "ey = \<lfloor>log 2 y\<rfloor>"
  have y: "0 < y" using assms by linarith
  have bx: "2 powr of_int ex \<le> x" "x < 2 powr (of_int ex + 1)"
    using exponent_bounds [OF assms(1)] by (simp_all add: ex_def)
  have by': "2 powr of_int ey \<le> y" "y < 2 powr (of_int ey + 1)"
    using exponent_bounds [OF y] by (simp_all add: ey_def)
  have "log 2 x \<le> log 2 y" using assms by simp
  then have le: "ex \<le> ey" unfolding ex_def ey_def by (rule floor_mono)
  show ?thesis
  proof (cases "ex = ey")
    case True
    let ?u = "(2::real) powr (of_int ey - 52)"
    have u: "0 < ?u" by simp
    have "x / ?u \<le> y / ?u" using assms(2) u by (simp add: divide_right_mono)
    then have "rne (x / ?u) \<le> rne (y / ?u)" by (rule rne_mono)
    then have "(of_int (rne (x / ?u)) :: real) \<le> of_int (rne (y / ?u))" by simp
    then have "of_int (rne (x / ?u)) * ?u \<le> of_int (rne (y / ?u)) * ?u"
      using u by (simp only: mult_le_cancel_right) simp
    then show ?thesis
      using dbl_eqI [OF bx] dbl_eqI [OF by'] True by simp
  next
    case False
    then have "ex + 1 \<le> ey" using le by simp
    then have "real_of_int ex + 1 \<le> real_of_int ey" by linarith
    then have "(2::real) powr (of_int ex + 1) \<le> 2 powr of_int ey"
      by (rule powr_mono) simp
    then show ?thesis
      using dbl_range(2) [OF bx] dbl_range(1) [OF by'] by linarith
  qed
qed

lemma dbl_mono:
  assumes "x \<le> y"
  shows "dbl x \<le> dbl y"
proof -
  consider "0 < x" | "x = 0" | "x < 0" "y < 0" | "x < 0" "0 \<le> y" by linarith
  then show ?thesis
  proof cases
    case 1
    then show ?thesis using assms by (rule dbl_pos_mono)
  next
    case 2
    show ?thesis
    proof (cases "y = 0")
      case True
      then show ?thesis using 2 by simp
    next
      case False
      then have "0 < dbl y" using 2 assms by (intro dbl_pos) simp
      then show ?thesis using 2 by simp
    qed
  next
    case 3
    have "dbl (- y) \<le> dbl (- x)"
      by (rule dbl_pos_mono) (use 3 assms in simp_all)
    then show ?thesis by (simp add: dbl_minus)
  next
    case 4
    have "0 < dbl (- x)" using 4 by (intro dbl_pos) simp
    then have "dbl x < 0" by (simp add: dbl_minus)
    moreover have "0 \<le> dbl y"
    proof (cases "y = 0")
      case True
      then show ?thesis by simp
    next
      case False
      then have "0 < dbl y" using 4 by (intro dbl_pos) simp
      then show ?thesis by simp
    qed
    ultimately show ?thesis by simp
  qed
qed

lemma dbl_nonneg: "0 \<le> x \<Longrightarrow> 0 \<le> dbl x"
  using dbl_mono [of 0 x] by simp

lemma rne_Ints: "y \<in> \<int> \<Longrightarrow> of_int (rne y) = y"
  by (auto elim: Ints_cases)

lemma dbl_pos_Ints:
  assumes "x \<in> \<int>" and "0 < x" and "x < 2 ^ 53"
  shows "dbl x = x"
proof -
  define e where "e = \<lfloor>log 2 x\<rfloor>"
  let ?u = "(2::real) powr (of_int e - 52)"
  have b: "2 powr of_int e \<le> x" "x < 2 powr (of_int e + 1)"
    using exponent_bounds [OF assms(2)] by (simp_all add: e_def)
  have p53: "(2::real) powr 53 = 2 ^ 53" by simp
  have "(2::real) powr of_int e < 2 powr 53"
    unfolding p53 using b(1) assms(3) by linarith
  then have "of_int e < (53::real)" by (simp only: powr_less_cancel_iff)
  then have e: "e \<le> 52" by linarith
  have "1 / ?u = 2 powr of_int (52 - e)"
    by (simp add: powr_diff)
  also have "\<dots> = 2 ^ nat (52 - e)"
    using e powr_real_of_int [of 2 "52 - e"] by simp
  finally have "x / ?u = x * 2 ^ nat (52 - e)"
    by (simp add: field_simps)
  then have "x / ?u \<in> \<int>" using assms(1) by simp
  then have "of_int (rne (x / ?u)) = x / ?u" by (rule rne_Ints)
  then show ?thesis
    using dbl_eqI [OF b] by simp
qed

lemma dbl_Ints:
  assumes "x \<in> \<int>" and "\<bar>x\<bar> < 2 ^ 53"
  shows "dbl x = x"
proof -
  consider "x = 0" | "0 < x" | "x < 0" by linarith
  then show ?thesis
  proof cases
    case 1
    then show ?thesis by simp
  next
    case 2
    then show ?thesis using assms by (intro dbl_pos_Ints) simp_all
  next
    case 3
    then have "dbl (- x) = - x" using assms by (intro dbl_pos_Ints) simp_all
    then show ?thesis by (simp add: dbl_minus)
  qed
qed

lemma dbl_one [simp]: "dbl 1 = 1"
  by (rule dbl_Ints) simp_all

lemma dbl_255 [simp]: "dbl 255 = 255"
  by (rule dbl_Ints) simp_all

section \<open>The pixel loops\<close>

lemma length_wr [simp]: "length (wr buf k v) = length buf"
  by (simp add: wr_def)

lemma nth_wr_other: "p \<noteq> k \<Longrightarrow> wr buf k v ! p = buf ! p"
  by (simp add: wr_def)

lemma nth_wr_same: "k < length buf \<Longrightarrow> wr buf k v ! k = word_of_int v"
  by (simp add: wr_def)

lemma length_twoPassStep [simp]: "length (twoPassStep dw db out i) = length out"
  by (simp add: twoPassStep_def Let_def split: prod.splits)

lemma length_twoPassLoop [simp]: "length (foldl (twoPassStep dw db) out xs) = length out"
  by (induction xs arbitrary: out) simp_all

lemma twoPassStep_nth_other:
  "p < i * 4 \<or> i * 4 + 4 \<le> p \<Longrightarrow> twoPassStep dw db out i ! p = out ! p"
  by (auto simp add: twoPassStep_def Let_def nth_wr_other split: prod.splits)

lemma twoPassStep_nth_same:
  assumes "i * 4 + 3 < length out" and "twoPassPixel dw db i = (rv, gv, bv, av)"
  shows "twoPassStep dw db out i ! (i * 4) = word_of_int rv"
    and "twoPassStep dw db out i ! (i * 4 + 1) = word_of_int gv"
    and "twoPassStep dw db out i ! (i * 4 + 2) = word_of_int bv"
    and "twoPassStep dw db out i ! (i * 4 + 3) = word_of_int av"
  using assms by (simp_all add: twoPassStep_def Let_def wr_def)

lemma twoPassLoop_nth:
  assumes "i < n" and "i * 4 + 3 < length out" and "twoPassPixel dw db i = (rv, gv, bv, av)"
  shows "foldl (twoPassStep dw db) out [0..<n] ! (i * 4) = word_of_int rv
       \<and> foldl (twoPassStep dw db) out [0..<n] ! (i * 4 + 1) = word_of_int gv
       \<and> foldl (twoPassStep dw db) out [0..<n] ! (i * 4 + 2) = word_of_int bv
       \<and> foldl (twoPassStep dw db) out [0..<n] ! (i * 4 + 3) = word_of_int av"
  using assms(1)
proof (induction n)
  case 0
  then show ?case by simp
next
  case (Suc n)
  let ?prev = "foldl (twoPassStep dw db) out [0..<n]"
  have unfold: "foldl (twoPassStep dw db) out [0..<Suc n] = twoPassStep dw db ?prev n"
    by simp
  show ?case
  proof (cases "i = n")
    case True
    have "i * 4 + 3 < length ?prev" using assms(2) by simp
    then show ?thesis
      unfolding unfold using True twoPassStep_nth_same [OF _ assms(3), of ?prev] by simp
  next
    case False
    then have "i < n" using Suc.prems by simp
    then have ih: "?prev ! (i * 4) = word_of_int rv \<and> ?prev ! (i * 4 + 1) = word_of_int gv
       \<and> ?prev ! (i * 4 + 2) = word_of_int bv \<and> ?prev ! (i * 4 + 3) = word_of_int av"
      by (rule Suc.IH)
    have "\<And>k. k < 4 \<Longrightarrow> i * 4 + k < n * 4" using \<open>i < n\<close> by simp
    then have "\<And>k. k < 4 \<Longrightarrow> twoPassStep dw db ?prev n ! (i * 4 + k) = ?prev ! (i * 4 + k)"
      by (simp add: twoPassStep_nth_other)
    from this [of 0] this [of 1] this [of 2] this [of 3] ih show ?thesis
      unfolding unfold by simp
  qed
qed

lemma rd_in_range: "k < length buf \<Longrightarrow> rd buf k = Some (channel buf k)"
  by (simp add: rd_def channel_def)

lemma channel_bounds: "0 \<le> channel buf k" "channel buf k \<le> 255"
proof -
  show "0 \<le> channel buf k" unfolding channel_def by (rule of_nat_0_le_iff)
  have "unat (buf ! k) < 2 ^ 8" using unsigned_less [of "buf ! k", where ?'a = nat] by simp
  then have "unat (buf ! k) \<le> 255" by simp
  then have "real (unat (buf ! k)) \<le> real 255" by (simp only: of_nat_le_iff)
  then show "channel buf k \<le> 255" unfolding channel_def by simp
qed

lemma byte_of_channel: "word_of_int (round (channel buf k)) = buf ! k"
proof -
  have "round (channel buf k) = int (unat (buf ! k))"
    unfolding channel_def by (rule round_of_nat)
  then show ?thesis by simp
qed

lemma round_alpha_range:
  assumes "0 \<le> (a::real)" and "a \<le> 1"
  shows "0 \<le> round (a * 255)" and "round (a * 255) \<le> 255"
proof -
  have "round (0::real) \<le> round (a * 255)" by (rule round_mono) (use assms in simp)
  then show "0 \<le> round (a * 255)" by simp
  have "round (a * 255) \<le> round (255::real)" by (rule round_mono) (use assms in simp)
  then show "round (a * 255) \<le> 255" by simp
qed

lemma uint_byte_of_int:
  assumes "0 \<le> v" and "v \<le> 255"
  shows "uint (word_of_int v :: byte) = v"
  using assms by (simp add: uint_word_of_int take_bit_eq_mod)

lemma wellFormed_pixel:
  assumes "wellFormed img" and "i < width img * height img" and "k < 4"
  shows "i * 4 + k < length (data img)"
  using assms by (simp add: wellFormed_def)

lemma twoPassPixel_in_range:
  assumes "i * 4 + 3 < length dw" and "i * 4 + 3 < length db"
  shows "twoPassPixel dw db i =
           mattePixel (channel dw (i * 4)) (channel dw (i * 4 + 1)) (channel dw (i * 4 + 2))
                      (channel db (i * 4)) (channel db (i * 4 + 1)) (channel db (i * 4 + 2))"
  using assms by (simp add: twoPassPixel_def Let_def rd_in_range)

lemma pixelDistAt_zero:
  "pixelDistAt dw db i = 0 \<longleftrightarrow>
     channel dw (i * 4) = channel db (i * 4) \<and> channel dw (i * 4 + 1) = channel db (i * 4 + 1)
     \<and> channel dw (i * 4 + 2) = channel db (i * 4 + 2)"
proof -
  have "a\<^sup>2 + b\<^sup>2 + c\<^sup>2 = 0 \<longleftrightarrow> a = 0 \<and> b = 0 \<and> c = 0" for a b c :: real
    by (simp add: add_nonneg_eq_0_iff)
  then show ?thesis by (simp add: pixelDistAt_def)
qed

lemma sameRGB_refl: "sameRGB a a"
  by (simp add: sameRGB_def)

lemma sameRGB_rd: "sameRGB a b \<Longrightarrow> p mod 4 \<noteq> 3 \<Longrightarrow> rd a p = rd b p"
  by (simp add: sameRGB_def rd_def)

lemma sameRGB_rdAt: "sameRGB a b \<Longrightarrow> k mod 4 \<noteq> 3 \<Longrightarrow> rdAt a k = rdAt b k"
proof -
  assume s: "sameRGB a b" and k: "k mod 4 \<noteq> 3"
  show ?thesis
  proof (cases "k < 0")
    case True
    then show ?thesis by (simp add: rdAt_def)
  next
    case False
    then have "int (nat k mod 4) = k mod 4" by (simp add: zmod_int)
    then have "nat k mod 4 \<noteq> 3" using k by auto
    then show ?thesis using s False by (simp add: rdAt_def sameRGB_rd)
  qed
qed

lemma sameRGB_distSquaredAt: "sameRGB a b \<Longrightarrow> distSquaredAt bg a i = distSquaredAt bg b i"
proof -
  assume s: "sameRGB a b"
  have "rd a (i * 4) = rd b (i * 4)" "rd a (i * 4 + 1) = rd b (i * 4 + 1)"
       "rd a (i * 4 + 2) = rd b (i * 4 + 2)"
    by (rule sameRGB_rd [OF s], presburger)+
  then show ?thesis by (simp add: distSquaredAt_def Let_def)
qed

lemma sameRGB_chromaStep: "sameRGB (chromaStep t bg buf i) buf"
proof -
  have "p \<noteq> i * 4 + 3" if "p mod 4 \<noteq> 3" for p
    using that by presburger
  then show ?thesis
    by (simp add: sameRGB_def chromaStep_def nth_wr_other)
qed

lemma sameRGB_trans: "sameRGB a b \<Longrightarrow> sameRGB b c \<Longrightarrow> sameRGB a c"
  by (simp add: sameRGB_def)

lemma chromaLoop_unfold:
  "foldl (chromaStep t bg) buf [0..<Suc n] = chromaStep t bg (foldl (chromaStep t bg) buf [0..<n]) n"
  by simp

lemma sameRGB_chromaLoop: "sameRGB (foldl (chromaStep t bg) buf [0..<n]) buf"
proof (induction n)
  case 0
  then show ?case by (simp add: sameRGB_refl)
next
  case (Suc n)
  show ?case
    unfolding chromaLoop_unfold by (rule sameRGB_trans [OF sameRGB_chromaStep Suc])
qed

lemma chromaLoop_alpha:
  assumes "i * 4 + 3 < length buf"
  shows "foldl (chromaStep t bg) buf [0..<n] ! (i * 4 + 3) =
           (if i < n then word_of_int (alphaNumber (pixelAlpha t (distSquaredAt bg buf i)))
            else buf ! (i * 4 + 3))"
proof (induction n)
  case 0
  then show ?case by simp
next
  case (Suc n)
  let ?prev = "foldl (chromaStep t bg) buf [0..<n]"
  have same: "sameRGB ?prev buf" by (rule sameRGB_chromaLoop)
  then have len: "length ?prev = length buf" by (simp add: sameRGB_def)
  show ?case
  proof (cases "i = n")
    case True
    have "chromaStep t bg ?prev n ! (n * 4 + 3)
            = word_of_int (alphaNumber (pixelAlpha t (distSquaredAt bg ?prev n)))"
      using assms True len by (simp add: chromaStep_def nth_wr_same)
    then show ?thesis
      unfolding chromaLoop_unfold using True sameRGB_distSquaredAt [OF same] by simp
  next
    case False
    then have "i * 4 + 3 \<noteq> n * 4 + 3" by simp
    then have "chromaStep t bg ?prev n ! (i * 4 + 3) = ?prev ! (i * 4 + 3)"
      by (simp add: chromaStep_def nth_wr_other)
    then show ?thesis
      unfolding chromaLoop_unfold using False Suc by auto
  qed
qed

lemma chromaLoop_idem:
  "foldl (chromaStep t bg) (foldl (chromaStep t bg) buf [0..<n]) [0..<n] = foldl (chromaStep t bg) buf [0..<n]"
proof (rule nth_equalityI)
  let ?res = "foldl (chromaStep t bg) buf [0..<n]"
  let ?res2 = "foldl (chromaStep t bg) ?res [0..<n]"
  have s1: "sameRGB ?res buf" and s2: "sameRGB ?res2 ?res"
    by (rule sameRGB_chromaLoop)+
  show "length ?res2 = length ?res" using s2 by (simp add: sameRGB_def)
  fix p
  assume p: "p < length ?res2"
  show "?res2 ! p = ?res ! p"
  proof (cases "p mod 4 = 3")
    case False
    then show ?thesis using s2 by (simp add: sameRGB_def)
  next
    case True
    define i where "i = p div 4"
    have pi: "p = i * 4 + 3" using True unfolding i_def by presburger
    have len: "length ?res2 = length ?res" "length ?res = length buf"
      using s1 s2 by (simp_all add: sameRGB_def)
    have in1: "i * 4 + 3 < length ?res" and in0: "i * 4 + 3 < length buf"
      using p pi len by simp_all
    show ?thesis
      unfolding pi
      using chromaLoop_alpha [OF in1, of t bg n] chromaLoop_alpha [OF in0, of t bg n]
        sameRGB_distSquaredAt [OF s1, of bg i]
      by simp
  qed
qed

lemma sameRGB_addCorner:
  assumes "sameRGB a b" and "c mod 4 = 0"
  shows "addCorner a acc c = addCorner b acc c"
proof -
  have "rdAt a c = rdAt b c" "rdAt a (c + 1) = rdAt b (c + 1)" "rdAt a (c + 2) = rdAt b (c + 2)"
    by (rule sameRGB_rdAt [OF assms(1)], use assms(2) in presburger)+
  then show ?thesis by (simp add: addCorner_def)
qed

lemma sameRGB_foldl_addCorner:
  assumes "sameRGB a b" and "\<forall>c \<in> set cs. c mod 4 = 0"
  shows "foldl (addCorner a) acc cs = foldl (addCorner b) acc cs"
  using assms(2) by (induction cs arbitrary: acc) (simp_all add: sameRGB_addCorner [OF assms(1)])

lemma cornerOffsets_aligned: "\<forall>c \<in> set (cornerOffsets info). c mod 4 = 0"
  by (simp add: cornerOffsets_def)

lemma sameRGB_autoBgColor:
  assumes "sameRGB (data out) (data img)" and "width out = width img" and "height out = height img"
  shows "autoBgColor out = autoBgColor img"
proof -
  have "cornerOffsets out = cornerOffsets img"
    using assms(2,3) by (simp add: cornerOffsets_def)
  then show ?thesis
    using sameRGB_foldl_addCorner [OF assms(1) cornerOffsets_aligned, of "(Some 0, Some 0, Some 0)" img]
    by (simp add: autoBgColor_def sumCorners_def)
qed

lemma sameRGB_resolveBgColor:
  assumes "sameRGB (data out) (data img)" and "width out = width img" and "height out = height img"
  shows "resolveBgColor out c = resolveBgColor img c"
  by (simp add: resolveBgColor_def sameRGB_autoBgColor [OF assms] split: option.splits)

lemma pixelAlpha_finite: "\<exists>a. pixelAlpha t distSquared = Some a"
  by (cases "t = 0") (auto simp add: pixelAlpha_def jdiv_def Let_def split: option.splits)

lemma rdAt_in_range: "c < length buf \<Longrightarrow> rdAt buf (int c) = Some (channel buf c)"
  by (simp add: rdAt_def rd_in_range)

lemma addCorner_in_range:
  assumes "c + 2 < length buf"
  shows "addCorner buf (Some r, Some g, Some b) (int c)
           = (Some (r + channel buf c), Some (g + channel buf (c + 1)), Some (b + channel buf (c + 2)))"
proof -
  have "rdAt buf (int c) = Some (channel buf c)"
       "rdAt buf (int c + 1) = Some (channel buf (c + 1))"
       "rdAt buf (int c + 2) = Some (channel buf (c + 2))"
    using assms rdAt_in_range [of c buf] rdAt_in_range [of "c + 1" buf] rdAt_in_range [of "c + 2" buf]
    by (simp_all add: add.commute)
  then show ?thesis by (simp add: addCorner_def jadd_def)
qed

lemma cornerOffsets_nat:
  assumes "1 \<le> width img" and "1 \<le> height img"
  shows "cornerOffsets img =
           [int 0, int ((width img - 1) * 4), int ((height img - 1) * width img * 4),
            int (((height img - 1) * width img + (width img - 1)) * 4)]"
  using assms by (simp add: cornerOffsets_def of_nat_diff algebra_simps)

lemma corner_in_range:
  assumes "wellFormed img" and "1 \<le> width img" and "1 \<le> height img"
  shows "0 + 2 < length (data img)"
    and "(width img - 1) * 4 + 2 < length (data img)"
    and "(height img - 1) * width img * 4 + 2 < length (data img)"
    and "((height img - 1) * width img + (width img - 1)) * 4 + 2 < length (data img)"
proof -
  define w h where "w = width img" and "h = height img"
  have len: "length (data img) = w * h * 4"
    using assms(1) by (simp add: wellFormed_def w_def h_def)
  have wh: "1 \<le> w" "1 \<le> h" using assms(2,3) by (simp_all add: w_def h_def)
  have rows: "(h - 1) * w + w = w * h"
    using wh by (cases h) (simp_all add: algebra_simps)
  have pos: "1 \<le> w * h" using wh by (simp add: Suc_le_eq)
  have last: "(h - 1) * w + (w - 1) + 1 = w * h" using rows wh by simp
  have a: "(w - 1) + 1 \<le> w * h" using last wh by simp
  have b: "(h - 1) * w + 1 \<le> w * h" using last wh by simp
  show "0 + 2 < length (data img)" using pos len by linarith
  show "(width img - 1) * 4 + 2 < length (data img)"
    using a unfolding len w_def [symmetric] by simp
  show "(height img - 1) * width img * 4 + 2 < length (data img)"
    using b unfolding len w_def [symmetric] h_def [symmetric] by simp
  show "((height img - 1) * width img + (width img - 1)) * 4 + 2 < length (data img)"
    using last unfolding len w_def [symmetric] h_def [symmetric] by simp
qed

lemma autoBgColor_wellFormed:
  assumes "wellFormed img" and "1 \<le> width img" and "1 \<le> height img"
  shows "autoBgColor img = (Some (cornerAverage img 0), Some (cornerAverage img 1), Some (cornerAverage img 2))"
proof -
  note r = corner_in_range [OF assms]
  show ?thesis
    unfolding autoBgColor_def sumCorners_def cornerOffsets_nat [OF assms(2,3)] foldl.simps
      addCorner_in_range [OF r(1)] addCorner_in_range [OF r(2)]
      addCorner_in_range [OF r(3)] addCorner_in_range [OF r(4)]
    by (simp add: roundQuarter_def cornerAverage_def Let_def)
qed

lemma parseColor_error: "parseColor c = Inl e \<Longrightarrow> e = InvalidColor c"
  by (simp add: parseColor_def Let_def split: if_splits)

lemma resolveBgColor_error: "resolveBgColor img bgColorOption = Inl e \<Longrightarrow> \<exists>c. e = InvalidColor c"
  by (auto simp add: resolveBgColor_def split: option.splits if_splits sum.splits dest: parseColor_error)


section \<open>The arithmetic of the difference matting\<close>

lemma alphaOfDist_clamp: "alphaOfDist pd = clamp01 (fsub 1 (fdiv pd bgDist))"
  by (simp add: alphaOfDist_def Let_def clamp01_def max_def min_def)

lemma clamp01_bounds: "0 \<le> clamp01 x" "clamp01 x \<le> 1"
  by (simp_all add: clamp01_def)

lemma clamp01_mono: "x \<le> y \<Longrightarrow> clamp01 x \<le> clamp01 y"
  by (simp add: clamp01_def max_def min_def)

lemma clamp01_lipschitz: "0 \<le> y \<Longrightarrow> y \<le> 1 \<Longrightarrow> \<bar>clamp01 x - y\<bar> \<le> \<bar>x - y\<bar>"
  by (simp add: clamp01_def max_def min_def)

lemma sqrt_bg: "sqrt 195075 = 255 * sqrt 3" "441 < sqrt (195075::real)" "sqrt (195075::real) < 442"
proof -
  have "(195075::real) = 255\<^sup>2 * 3" by simp
  then have "sqrt 195075 = sqrt (255\<^sup>2 * 3)" by simp
  also have "\<dots> = 255 * sqrt 3" by (simp only: real_sqrt_mult real_sqrt_abs abs_numeral)
  finally show "sqrt 195075 = 255 * sqrt 3" .
  show "441 < sqrt (195075::real)" by (rule real_less_rsqrt) simp
  show "sqrt (195075::real) < 442" by (rule real_less_lsqrt) simp_all
qed

lemma bgDist_eq: "bgDist = dbl (sqrt 195075)"
proof -
  have a: "fmul 3 255 = 765" unfolding fmul_def by (rule trans [OF _ dbl_Ints [of 765]]) simp_all
  have b: "fmul 765 255 = 195075" unfolding fmul_def by (rule trans [OF _ dbl_Ints [of 195075]]) simp_all
  show ?thesis by (simp add: bgDist_def a b fsqrt_def)
qed

lemma u53_bounds: "0 < u53" "u53 \<le> 1 / 1000000000000000"
  by (simp_all add: u53_def)

lemma dbl_abs_error: "\<bar>x\<bar> \<le> b \<Longrightarrow> \<bar>dbl x - x\<bar> \<le> b * u53"
proof -
  assume "\<bar>x\<bar> \<le> b"
  then have "\<bar>x\<bar> / 2 ^ 53 \<le> b / 2 ^ 53" by (simp add: divide_right_mono)
  then show ?thesis using dbl_error [of x] by (simp add: u53_def)
qed

lemma bgDist_bounds: "\<bar>bgDist - sqrt 195075\<bar> \<le> 442 * u53" "440 \<le> bgDist"
proof -
  show e: "\<bar>bgDist - sqrt 195075\<bar> \<le> 442 * u53"
    unfolding bgDist_eq by (rule dbl_abs_error) (use sqrt_bg in simp)
  show "440 \<le> bgDist" using e sqrt_bg(2) u53_bounds by linarith
qed

lemma alpha_error:
  assumes "0 \<le> d" and "d \<le> 195075"
  shows "\<bar>alphaOfDist (fsqrt d) - (1 - sqrt d / sqrt 195075)\<bar> \<le> 7 * u53"
proof -
  define B :: real where "B = sqrt 195075"
  define s where "s = sqrt d"
  define s' where "s' = dbl s"
  define B' where "B' = bgDist"
  note u = u53_bounds
  have B: "441 < B" "B < 442" using sqrt_bg by (simp_all add: B_def)
  have s: "0 \<le> s" "s \<le> B"
    using assms by (simp_all add: s_def B_def)
  have es: "\<bar>s' - s\<bar> \<le> 442 * u53"
    unfolding s'_def by (rule dbl_abs_error) (use s B in simp)
  have s'0: "0 \<le> s'" unfolding s'_def by (rule dbl_nonneg [OF s(1)])
  have eB: "\<bar>B' - B\<bar> \<le> 442 * u53" and B'lo: "440 \<le> B'"
    using bgDist_bounds by (simp_all add: B'_def B_def)
  define x where "x = s / B"
  define x0 where "x0 = s' / B'"
  have x: "0 \<le> x" "x \<le> 1" using s B by (simp_all add: x_def)
  have diff: "x0 - x = ((s' - s) * B - s * (B' - B)) / (B' * B)"
    unfolding x0_def x_def using B B'lo by (simp add: field_simps)
  have "\<bar>(s' - s) * B - s * (B' - B)\<bar> \<le> \<bar>s' - s\<bar> * B + s * \<bar>B' - B\<bar>"
    using s(1) B(1) by (simp add: abs_mult abs_triangle_ineq4 [THEN order_trans])
  also have "\<dots> \<le> (442 * u53) * 442 + 442 * (442 * u53)"
    using es eB s B u by (intro add_mono mult_mono) simp_all
  finally have num: "\<bar>(s' - s) * B - s * (B' - B)\<bar> \<le> 390728 * u53" by simp
  have den: "194040 \<le> B' * B"
    using mult_mono [of 440 B' 441 B] B'lo B by simp
  have "0 \<le> B' * B" using den by linarith
  then have "\<bar>x0 - x\<bar> = \<bar>(s' - s) * B - s * (B' - B)\<bar> / (B' * B)"
    unfolding diff by (simp only: abs_divide abs_of_nonneg)
  also have "\<dots> \<le> (390728 * u53) / 194040"
    using num den u by (intro frac_le) simp_all
  also have "\<dots> \<le> 3 * u53" using u by simp
  finally have ex0: "\<bar>x0 - x\<bar> \<le> 3 * u53" .
  have "0 \<le> s' / B'" using s'0 B'lo by simp
  then have x0: "0 \<le> x0" "x0 \<le> 2"
    using ex0 x u unfolding x0_def by linarith+
  define q where "q = dbl x0"
  have "\<bar>q - x0\<bar> \<le> 2 * u53"
    unfolding q_def by (rule dbl_abs_error) (use x0 in simp)
  then have eq: "\<bar>q - x\<bar> \<le> 5 * u53" using ex0 by linarith
  have "\<bar>1 - q\<bar> \<le> 2" using eq x u by linarith
  then have "\<bar>dbl (1 - q) - (1 - q)\<bar> \<le> 2 * u53" by (rule dbl_abs_error)
  then have ea: "\<bar>dbl (1 - q) - (1 - x)\<bar> \<le> 7 * u53" using eq by linarith
  have "\<bar>clamp01 (dbl (1 - q)) - (1 - x)\<bar> \<le> \<bar>dbl (1 - q) - (1 - x)\<bar>"
    by (rule clamp01_lipschitz) (use x in simp_all)
  then have "\<bar>clamp01 (dbl (1 - q)) - (1 - x)\<bar> \<le> 7 * u53" using ea by linarith
  then show ?thesis
    by (simp add: alphaOfDist_clamp fsub_def fdiv_def fsqrt_def q_def x0_def x_def s'_def s_def
        B'_def B_def)
qed

lemma alphaOfDist_bounds: "0 \<le> alphaOfDist pd" "alphaOfDist pd \<le> 1"
  by (simp_all add: alphaOfDist_clamp clamp01_bounds)

lemma alpha_number_error:
  assumes "0 \<le> d" and "d \<le> 195075"
  shows "\<bar>fmul (alphaOfDist (fsqrt d)) 255 - (1 - sqrt d / sqrt 195075) * 255\<bar> \<le> 2040 * u53"
proof -
  define a where "a = alphaOfDist (fsqrt d)"
  have a: "0 \<le> a" "a \<le> 1" by (simp_all add: a_def alphaOfDist_bounds)
  have ea: "\<bar>a - (1 - sqrt d / sqrt 195075)\<bar> \<le> 7 * u53"
    unfolding a_def by (rule alpha_error [OF assms])
  have "\<bar>a * 255\<bar> \<le> 255" using a by simp
  then have "\<bar>dbl (a * 255) - a * 255\<bar> \<le> 255 * u53" by (rule dbl_abs_error)
  moreover have "\<bar>a * 255 - (1 - sqrt d / sqrt 195075) * 255\<bar> \<le> 1785 * u53"
  proof -
    define X where "X = 1 - sqrt d / sqrt 195075"
    have "a * 255 - X * 255 = (a - X) * 255"
      by (simp add: algebra_simps)
    then have eq: "\<bar>a * 255 - X * 255\<bar> = \<bar>a - X\<bar> * 255"
      by (simp only: abs_mult abs_numeral)
    have "\<bar>a - X\<bar> * 255 \<le> (7 * u53) * 255"
      using ea unfolding X_def by (intro mult_right_mono) simp_all
    then show ?thesis unfolding eq X_def [symmetric] by simp
  qed
  ultimately show ?thesis unfolding fmul_def a_def [symmetric] by linarith
qed

lemma round_stable:
  fixes p p' eps :: real
  assumes "\<bar>p' - p\<bar> \<le> eps"
    and "\<And>k :: int. eps < \<bar>p - (of_int k + 1 / 2)\<bar>"
  shows "round p' = round p"
proof (rule round_unique)
  let ?n = "round p"
  have lo: "of_int ?n - 1 / 2 \<le> p" and hi: "p < of_int ?n + 1 / 2"
    using of_int_round_ge [of p] of_int_round_le [of p] of_int_round_gt [of p]
      of_int_round_abs_le [of p] round_def [of p] by linarith+
  have "eps < \<bar>p - (of_int ?n + 1 / 2)\<bar>" by (rule assms(2))
  then have h: "p < of_int ?n + 1 / 2 - eps" using hi by linarith
  have "(of_int (?n - 1) :: real) + 1 / 2 = of_int ?n - 1 / 2" by simp
  moreover have "eps < \<bar>p - (of_int (?n - 1) + 1 / 2)\<bar>" by (rule assms(2))
  ultimately have l: "of_int ?n - 1 / 2 + eps < p" using lo by linarith
  show "p' - 1 / 2 < of_int ?n" using h assms(1) by linarith
  show "of_int ?n \<le> p' + 1 / 2" using l assms(1) by linarith
qed

lemma tie_margin:
  fixes D k :: int
  assumes "0 \<le> D" and "D \<le> 195075"
  shows "1 / 10000 < \<bar>(1 - sqrt (of_int D) / sqrt 195075) * 255 - (of_int k + 1 / 2)\<bar>"
proof -
  define t where "t = sqrt (of_int D / 3)"
  define m where "m = 254 - k"
  define c :: real where "c = of_int m + 1 / 2"
  have t0: "0 \<le> t" using assms(1) by (simp add: t_def)
  have "of_int D / 3 \<le> (255::real)\<^sup>2" using assms(2) by simp
  then have "sqrt (of_int D / 3) \<le> sqrt ((255::real)\<^sup>2)" by (simp only: real_sqrt_le_iff)
  then have t255: "t \<le> 255" unfolding t_def by (simp only: real_sqrt_abs abs_numeral)
  have t2: "t\<^sup>2 = of_int D / 3" using assms(1) by (simp add: t_def)
  have "sqrt (of_int D) / sqrt 195075 * 255 = sqrt (of_int D) / sqrt 3"
    by (simp add: sqrt_bg(1))
  also have "\<dots> = t" by (simp add: t_def real_sqrt_divide)
  finally have p: "(1 - sqrt (of_int D) / sqrt 195075) * 255 - (of_int k + 1 / 2) = c - t"
    by (simp add: algebra_simps c_def m_def)
  have "odd (4 * D - 3 * (2 * m + 1)\<^sup>2)" by simp
  then have "4 * D - 3 * (2 * m + 1)\<^sup>2 \<noteq> 0" by (metis even_zero)
  then have "1 \<le> \<bar>4 * D - 3 * (2 * m + 1)\<^sup>2\<bar>" by linarith
  then have "(1::real) \<le> \<bar>of_int (4 * D - 3 * (2 * m + 1)\<^sup>2)\<bar>"
    by (metis of_int_1_le_iff of_int_abs)
  moreover have "real_of_int (4 * D - 3 * (2 * m + 1)\<^sup>2) = 12 * (t\<^sup>2 - c\<^sup>2)"
  proof -
    have A: "12 * t\<^sup>2 = 4 * of_int D" unfolding t2 by simp
    have C: "12 * c\<^sup>2 = 3 * (2 * of_int m + 1)\<^sup>2"
      by (simp add: c_def power2_eq_square algebra_simps)
    have "12 * (t\<^sup>2 - c\<^sup>2) = 12 * t\<^sup>2 - 12 * c\<^sup>2" by (simp add: algebra_simps)
    then show ?thesis unfolding A C by simp
  qed
  ultimately have "1 \<le> \<bar>12 * (t\<^sup>2 - c\<^sup>2)\<bar>" by (simp only:)
  then have "1 \<le> 12 * \<bar>t\<^sup>2 - c\<^sup>2\<bar>" by (simp only: abs_mult abs_numeral)
  moreover have "1 \<le> 12 * z \<Longrightarrow> 1 / 12 \<le> z" for z :: real by linarith
  ultimately have sq: "1 / 12 \<le> \<bar>t\<^sup>2 - c\<^sup>2\<bar>" by blast
  have fact: "t\<^sup>2 - c\<^sup>2 = (t - c) * (t + c)" by (simp add: power2_eq_square algebra_simps)
  consider "c < 0" | "256 < c" | "0 \<le> c" "c \<le> 256" by linarith
  then have "1 / 10000 < \<bar>c - t\<bar>"
  proof cases
    case 1
    then have "m < 0" unfolding c_def by linarith
    then have "real_of_int m \<le> - 1" by linarith
    then have "c \<le> - 1 / 2" unfolding c_def by linarith
    then show ?thesis using t0 by linarith
  next
    case 2
    then show ?thesis using t255 by linarith
  next
    case 3
    have "0 \<le> m" using 3(1) unfolding c_def by linarith
    then have "0 \<le> real_of_int m" by linarith
    then have chalf: "1 / 2 \<le> c" unfolding c_def by linarith
    have sum: "0 < t + c" "t + c \<le> 511" using t0 t255 3 chalf by linarith+
    have "1 / 12 \<le> \<bar>t - c\<bar> * (t + c)"
      using sq sum unfolding fact by (simp add: abs_mult)
    also have "\<dots> \<le> \<bar>t - c\<bar> * 511"
      using sum by (intro mult_left_mono) simp_all
    finally show ?thesis by (simp add: abs_minus_commute) 
  qed
  then show ?thesis unfolding p .
qed

lemma alpha_number_exact:
  fixes D :: int
  assumes "0 \<le> D" and "D \<le> 195075"
  shows "round (fmul (alphaOfDist (fsqrt (of_int D))) 255)
           = round (clamp01 (1 - sqrt (of_int D) / sqrt (3 * 255\<^sup>2)) * 255)"
proof -
  have d: "0 \<le> (of_int D :: real)" "(of_int D :: real) \<le> 195075" using assms by simp_all
  let ?a = "1 - sqrt (of_int D) / sqrt 195075"
  have "sqrt (of_int D) \<le> sqrt 195075" using d by simp
  then have "sqrt (of_int D) / sqrt 195075 \<le> 1" by (simp add: divide_le_eq)
  moreover have "0 \<le> sqrt (of_int D) / sqrt 195075" using d by simp
  ultimately have "clamp01 ?a = ?a" by (simp add: clamp01_def)
  moreover have "round (fmul (alphaOfDist (fsqrt (of_int D))) 255) = round (?a * 255)"
  proof (rule round_stable)
    show "\<bar>fmul (alphaOfDist (fsqrt (of_int D))) 255 - ?a * 255\<bar> \<le> 2040 * u53"
      by (rule alpha_number_error [OF d])
    show "2040 * u53 < \<bar>?a * 255 - (of_int k + 1 / 2)\<bar>" for k :: int
      using tie_margin [OF assms, of k] u53_bounds by linarith
  qed
  ultimately show ?thesis by simp
qed

lemma alpha_number_exact_Ints:
  assumes "d \<in> \<int>" and "0 \<le> d" and "d \<le> 195075"
  shows "round (fmul (alphaOfDist (fsqrt d)) 255)
           = round (clamp01 (1 - sqrt d / sqrt (3 * 255\<^sup>2)) * 255)"
proof -
  obtain D :: int where D: "d = of_int D" using assms(1) by (auto elim: Ints_cases)
  have "0 \<le> D" "D \<le> 195075" using assms(2,3) unfolding D by linarith+
  then show ?thesis unfolding D by (rule alpha_number_exact)
qed

lemma small_fsub:
  assumes "small a x" and "small b y" and "a + b < 2 ^ 53"
  shows "fsub x y = x - y" and "small (a + b) (x - y)"
proof -
  show s: "small (a + b) (x - y)" using assms(1,2) by (auto simp add: small_def)
  then show "fsub x y = x - y"
    unfolding fsub_def using assms(3) by (intro dbl_Ints) (auto simp add: small_def)
qed

lemma small_fadd:
  assumes "small a x" and "small b y" and "a + b < 2 ^ 53"
  shows "fadd x y = x + y" and "small (a + b) (x + y)"
proof -
  show s: "small (a + b) (x + y)" using assms(1,2) by (auto simp add: small_def)
  then show "fadd x y = x + y"
    unfolding fadd_def using assms(3) by (intro dbl_Ints) (auto simp add: small_def)
qed

lemma small_fmul:
  assumes "small a x" and "small b y" and "a * b < 2 ^ 53"
  shows "fmul x y = x * y" and "small (a * b) (x * y)"
proof -
  have "\<bar>x * y\<bar> \<le> a * b"
    using assms(1,2) unfolding small_def abs_mult by (intro mult_mono) auto
  then show s: "small (a * b) (x * y)" using assms(1,2) by (auto simp add: small_def)
  then show "fmul x y = x * y"
    unfolding fmul_def using assms(3) by (intro dbl_Ints) (auto simp add: small_def)
qed

lemma isByte_small: "isByte x \<Longrightarrow> small 255 x"
  by (simp add: isByte_def small_def)

lemma matteAlpha_exact_dist:
  assumes "isByte rW" "isByte gW" "isByte bW" "isByte rB" "isByte gB" "isByte bB"
  shows "matteAlpha rW gW bW rB gB bB
           = alphaOfDist (fsqrt ((rW - rB)\<^sup>2 + (gW - gB)\<^sup>2 + (bW - bB)\<^sup>2))"
    and "(rW - rB)\<^sup>2 + (gW - gB)\<^sup>2 + (bW - bB)\<^sup>2 \<in> \<int>"
    and "(rW - rB)\<^sup>2 + (gW - gB)\<^sup>2 + (bW - bB)\<^sup>2 \<le> 195075"
proof -
  note b = assms [THEN isByte_small]
  have r: "fsub rW rB = rW - rB" "small (255 + 255) (rW - rB)"
    by (rule small_fsub [OF b(1) b(4)], simp)+
  have g: "fsub gW gB = gW - gB" "small (255 + 255) (gW - gB)"
    by (rule small_fsub [OF b(2) b(5)], simp)+
  have bl: "fsub bW bB = bW - bB" "small (255 + 255) (bW - bB)"
    by (rule small_fsub [OF b(3) b(6)], simp)+
  let ?c = "(255 + 255) * (255 + 255) :: real"
  have r2: "fmul (rW - rB) (rW - rB) = (rW - rB) * (rW - rB)" "small ?c ((rW - rB) * (rW - rB))"
    by (rule small_fmul [OF r(2) r(2)], simp)+
  have g2: "fmul (gW - gB) (gW - gB) = (gW - gB) * (gW - gB)" "small ?c ((gW - gB) * (gW - gB))"
    by (rule small_fmul [OF g(2) g(2)], simp)+
  have b2: "fmul (bW - bB) (bW - bB) = (bW - bB) * (bW - bB)" "small ?c ((bW - bB) * (bW - bB))"
    by (rule small_fmul [OF bl(2) bl(2)], simp)+
  have rg: "fadd ((rW - rB) * (rW - rB)) ((gW - gB) * (gW - gB))
              = (rW - rB) * (rW - rB) + (gW - gB) * (gW - gB)"
      "small (?c + ?c) ((rW - rB) * (rW - rB) + (gW - gB) * (gW - gB))"
    by (rule small_fadd [OF r2(2) g2(2)], simp)+
  have rgb: "fadd ((rW - rB) * (rW - rB) + (gW - gB) * (gW - gB)) ((bW - bB) * (bW - bB))
              = (rW - rB) * (rW - rB) + (gW - gB) * (gW - gB) + (bW - bB) * (bW - bB)"
      "small (?c + ?c + ?c) ((rW - rB) * (rW - rB) + (gW - gB) * (gW - gB) + (bW - bB) * (bW - bB))"
    by (rule small_fadd [OF rg(2) b2(2)], simp)+
  show "matteAlpha rW gW bW rB gB bB
           = alphaOfDist (fsqrt ((rW - rB)\<^sup>2 + (gW - gB)\<^sup>2 + (bW - bB)\<^sup>2))"
    by (simp add: matteAlpha_def Let_def r g bl r2 g2 b2 rg rgb power2_eq_square)
  show "(rW - rB)\<^sup>2 + (gW - gB)\<^sup>2 + (bW - bB)\<^sup>2 \<in> \<int>"
    using rgb(2) by (simp add: small_def power2_eq_square)
  have sq: "(x - y)\<^sup>2 \<le> 65025" if "isByte x" "isByte y" for x y
  proof -
    have "\<bar>x - y\<bar> \<le> 255" using that by (auto simp add: isByte_def)
    then have "\<bar>x - y\<bar> * \<bar>x - y\<bar> \<le> 255 * 255" by (intro mult_mono) simp_all
    then show ?thesis by (simp add: power2_eq_square abs_mult [symmetric])
  qed
  show "(rW - rB)\<^sup>2 + (gW - gB)\<^sup>2 + (bW - bB)\<^sup>2 \<le> 195075"
    using sq [OF assms(1) assms(4)] sq [OF assms(2) assms(5)] sq [OF assms(3) assms(6)] by linarith
qed

lemma bgDist_pos: "0 < bgDist"
  using bgDist_bounds(2) by linarith

lemma alphaOfDist_antimono:
  assumes "x \<le> y"
  shows "alphaOfDist y \<le> alphaOfDist x"
proof -
  have "x / bgDist \<le> y / bgDist" using assms bgDist_pos by (simp add: divide_right_mono)
  then have "fdiv x bgDist \<le> fdiv y bgDist" unfolding fdiv_def by (rule dbl_mono)
  then have "1 - fdiv y bgDist \<le> 1 - fdiv x bgDist" by simp
  then have "fsub 1 (fdiv y bgDist) \<le> fsub 1 (fdiv x bgDist)" unfolding fsub_def by (rule dbl_mono)
  then show ?thesis unfolding alphaOfDist_clamp by (rule clamp01_mono)
qed

lemma alpha_number_antimono:
  assumes "d1 \<le> d2"
  shows "round (fmul (alphaOfDist (fsqrt d2)) 255) \<le> round (fmul (alphaOfDist (fsqrt d1)) 255)"
proof -
  have "sqrt d1 \<le> sqrt d2" using assms by simp
  then have "fsqrt d1 \<le> fsqrt d2" unfolding fsqrt_def by (rule dbl_mono)
  then have "alphaOfDist (fsqrt d2) \<le> alphaOfDist (fsqrt d1)" by (rule alphaOfDist_antimono)
  then have "alphaOfDist (fsqrt d2) * 255 \<le> alphaOfDist (fsqrt d1) * 255" by simp
  then have "fmul (alphaOfDist (fsqrt d2)) 255 \<le> fmul (alphaOfDist (fsqrt d1)) 255"
    unfolding fmul_def by (rule dbl_mono)
  then show ?thesis by (rule round_mono)
qed

lemma alpha_number_range:
  "0 \<le> round (fmul (alphaOfDist pd) 255)" "round (fmul (alphaOfDist pd) 255) \<le> 255"
proof -
  have a: "0 \<le> alphaOfDist pd * 255" "alphaOfDist pd * 255 \<le> 255"
    using alphaOfDist_bounds [of pd] by simp_all
  have "0 \<le> fmul (alphaOfDist pd) 255" unfolding fmul_def by (rule dbl_nonneg [OF a(1)])
  then have "round (0::real) \<le> round (fmul (alphaOfDist pd) 255)" by (rule round_mono)
  then show "0 \<le> round (fmul (alphaOfDist pd) 255)" by simp
  have "fmul (alphaOfDist pd) 255 \<le> dbl 255" unfolding fmul_def by (rule dbl_mono [OF a(2)])
  then have "round (fmul (alphaOfDist pd) 255) \<le> round (255::real)" by (intro round_mono) simp
  then show "round (fmul (alphaOfDist pd) 255) \<le> 255" by simp
qed

lemma literal_bounds: "0 < dbl (1 / 100)" "dbl (1 / 100) < 1"
proof -
  show "0 < dbl (1 / 100)" by (rule dbl_pos) simp
  have "\<bar>dbl (1 / 100) - 1 / 100\<bar> \<le> 1 * u53" by (rule dbl_abs_error) simp
  then show "dbl (1 / 100) < 1" using u53_bounds by linarith
qed

lemma recovered_range:
  assumes "0 \<le> c" and "dbl (1 / 100) < a"
  shows "0 \<le> round (min 255 (fdiv c a))" and "round (min 255 (fdiv c a)) \<le> 255"
proof -
  have "0 < a" using assms(2) literal_bounds(1) by linarith
  then have "0 \<le> c / a" using assms(1) by simp
  then have "0 \<le> fdiv c a" unfolding fdiv_def by (rule dbl_nonneg)
  then have "round (0::real) \<le> round (min 255 (fdiv c a))" by (intro round_mono) simp
  then show "0 \<le> round (min 255 (fdiv c a))" by simp
  have "round (min 255 (fdiv c a)) \<le> round (255::real)" by (rule round_mono) simp
  then show "round (min 255 (fdiv c a)) \<le> 255" by simp
qed

lemma mattePixel_opaque:
  assumes "isByte rB" "isByte gB" "isByte bB"
  shows "mattePixel rB gB bB rB gB bB = (round rB, round gB, round bB, 255)"
proof -
  have "matteAlpha rB gB bB rB gB bB = alphaOfDist (fsqrt 0)"
    using matteAlpha_exact_dist(1) [OF assms assms] by simp
  also have "\<dots> = 1"
    by (simp add: alphaOfDist_clamp fsqrt_def fdiv_def fsub_def clamp01_def)
  finally have a: "matteAlpha rB gB bB rB gB bB = 1" .
  have d: "fdiv c 1 = c" if "isByte c" for c
    unfolding fdiv_def using that by (simp add: isByte_def dbl_Ints)
  have m: "min 255 c = c" if "isByte c" for c
    using that by (simp add: isByte_def)
  have "fmul 1 255 = 255" by (simp add: fmul_def)
  then show ?thesis
    using literal_bounds(2) assms by (simp add: mattePixel_def Let_def a d m)
qed

lemma rne_unique: "\<bar>y - of_int m\<bar> < 1 / 2 \<Longrightarrow> rne y = m"
proof -
  assume a: "\<bar>y - of_int m\<bar> < 1 / 2"
  have f: "of_int \<lfloor>y\<rfloor> \<le> y" "y < of_int \<lfloor>y\<rfloor> + 1" by linarith+
  show ?thesis
  proof (cases "y - of_int \<lfloor>y\<rfloor> < 1 / 2")
    case True
    then have "\<lfloor>y\<rfloor> = m" using a f by linarith
    then show ?thesis using True by (simp add: rne_def)
  next
    case False
    then have "\<lfloor>y\<rfloor> + 1 = m" using a f by linarith
    moreover have "1 / 2 < y - of_int \<lfloor>y\<rfloor>" using a False \<open>\<lfloor>y\<rfloor> + 1 = m\<close> by linarith
    ultimately show ?thesis using False by (simp add: rne_def)
  qed
qed

lemma dbl_evalI:
  assumes "2 powr of_int e = p" and "p \<le> x" and "x < 2 * p" and "rne (x * 2 ^ 52 / p) = m"
  shows "dbl x = of_int m * p / 2 ^ 52"
proof -
  have u: "(2::real) powr (of_int e - 52) = p / 2 ^ 52"
    using assms(1) by (simp add: powr_diff)
  have "x < 2 powr (of_int e + 1)" using assms(1,3) by (simp add: powr_add)
  then have "dbl x = of_int (rne (x / 2 powr (of_int e - 52))) * 2 powr (of_int e - 52)"
    using assms(1,2) by (intro dbl_eqI) simp_all
  then show ?thesis unfolding u using assms(4) by (simp add: field_simps)
qed

lemma rne_sqrtI:
  fixes m :: int
  assumes "0 \<le> x" and "1 \<le> m" and "(2 * of_int m - 1)\<^sup>2 < 4 * (x * c\<^sup>2)" and "4 * (x * c\<^sup>2) < (2 * of_int m + 1)\<^sup>2"
    and "0 \<le> c"
  shows "rne (sqrt x * c) = m"
proof (rule rne_unique)
  have s: "sqrt x * c = sqrt (x * c\<^sup>2)"
    using assms(5) by (simp add: real_sqrt_mult)
  have "(of_int m - 1 / 2)\<^sup>2 < x * c\<^sup>2"
    using assms(3) by (simp add: power2_eq_square algebra_simps)
  then have lo: "of_int m - 1 / 2 < sqrt (x * c\<^sup>2)" by (rule real_less_rsqrt)
  have "x * c\<^sup>2 < (of_int m + 1 / 2)\<^sup>2"
    using assms(4) by (simp add: power2_eq_square algebra_simps)
  moreover have "(0::real) \<le> of_int m + 1 / 2" using assms(2) by linarith
  ultimately have hi: "sqrt (x * c\<^sup>2) < of_int m + 1 / 2" by (intro real_less_lsqrt)
  show "\<bar>sqrt x * c - of_int m\<bar> < 1 / 2" unfolding s using lo hi by linarith
qed

lemma fsqrt_21675: "fsqrt 21675 = 5179995207672553 / 35184372088832"
proof -
  have r: "rne (sqrt 21675 * 2 ^ 45) = 5179995207672553"
    by (rule rne_sqrtI) simp_all
  have eq: "sqrt 21675 * 2 ^ 52 / 128 = sqrt 21675 * 2 ^ 45" by simp
  have "dbl (sqrt 21675) = of_int 5179995207672553 * 128 / 2 ^ 52"
  proof (rule dbl_evalI [where e = 7])
    show "2 powr real_of_int 7 = 128" by simp
    show "128 \<le> sqrt 21675" by (rule real_le_rsqrt) simp
    show "sqrt 21675 < 2 * 128" by (rule real_less_lsqrt) simp_all
    show "rne (sqrt 21675 * 2 ^ 52 / 128) = 5179995207672553" unfolding eq by (rule r)
  qed
  also have "\<dots> = 5179995207672553 / 35184372088832" by simp
  finally show ?thesis unfolding fsqrt_def .
qed

lemma bgDist_value: "bgDist = 3884996405754415 / 8796093022208"
proof -
  have r: "rne (sqrt 195075 * 2 ^ 44) = 7769992811508830"
    by (rule rne_sqrtI) simp_all
  have eq: "sqrt 195075 * 2 ^ 52 / 256 = sqrt 195075 * 2 ^ 44" by simp
  have "dbl (sqrt 195075) = of_int 7769992811508830 * 256 / 2 ^ 52"
  proof (rule dbl_evalI [where e = 8])
    show "2 powr real_of_int 8 = 256" by simp
    show "256 \<le> sqrt 195075" by (rule real_le_rsqrt) simp
    show "sqrt 195075 < 2 * 256" by (rule real_less_lsqrt) simp_all
    show "rne (sqrt 195075 * 2 ^ 52 / 256) = 7769992811508830" unfolding eq by (rule r)
  qed
  also have "\<dots> = 3884996405754415 / 8796093022208" by simp
  finally show ?thesis unfolding bgDist_eq .
qed

lemma alpha_third: "alphaOfDist (fsqrt 21675) = 3002399751580331 / 4503599627370496"
proof -
  have "dbl (5179995207672553 / 35184372088832 / (3884996405754415 / 8796093022208))
          = of_int 6004799503160661 * (1 / 4) / 2 ^ 52"
  proof (rule dbl_evalI [where e = "- 2"])
    show "2 powr real_of_int (- 2) = 1 / 4" by (simp add: powr_minus_divide)
    show "rne (5179995207672553 / 35184372088832 / (3884996405754415 / 8796093022208) * 2 ^ 52 / (1 / 4))
            = 6004799503160661"
      by (simp add: rne_def Let_def)
  qed simp_all
  also have "\<dots> = 6004799503160661 / 18014398509481984" by simp
  finally have q: "fdiv (fsqrt 21675) bgDist = 6004799503160661 / 18014398509481984"
    unfolding fdiv_def fsqrt_21675 bgDist_value .
  have "dbl (1 - 6004799503160661 / 18014398509481984) = of_int 6004799503160662 * (1 / 2) / 2 ^ 52"
  proof (rule dbl_evalI [where e = "- 1"])
    show "2 powr real_of_int (- 1) = 1 / 2" by (simp add: powr_minus_divide)
    show "rne ((1 - 6004799503160661 / 18014398509481984) * 2 ^ 52 / (1 / 2)) = 6004799503160662"
      by (simp add: rne_def Let_def)
  qed simp_all
  also have "\<dots> = 3002399751580331 / 4503599627370496" by simp
  finally have a0: "fsub 1 (6004799503160661 / 18014398509481984) = 3002399751580331 / 4503599627370496"
    unfolding fsub_def .
  show ?thesis
    unfolding alphaOfDist_clamp q a0 by (simp add: clamp01_def)
qed

lemma recovered_red: "round (min 255 (fdiv 1 (3002399751580331 / 4503599627370496))) = 1"
proof -
  have "dbl (1 / (3002399751580331 / 4503599627370496)) = of_int 6755399441055743 * 1 / 2 ^ 52"
  proof (rule dbl_evalI [where e = 0])
    show "rne (1 / (3002399751580331 / 4503599627370496) * 2 ^ 52 / 1) = 6755399441055743"
      by (simp add: rne_def Let_def)
  qed simp_all
  also have "\<dots> = 6755399441055743 / 4503599627370496" by simp
  finally have v: "fdiv 1 (3002399751580331 / 4503599627370496) = 6755399441055743 / 4503599627370496"
    unfolding fdiv_def .
  show ?thesis unfolding v by (simp add: round_def)
qed

lemma isByte_channel: "isByte (channel buf k)"
proof -
  have "channel buf k \<in> \<int>" unfolding channel_def by (rule Ints_of_nat)
  then show ?thesis using channel_bounds [of buf k] by (simp add: isByte_def)
qed

lemma computedAlpha_dist:
  shows "computedAlpha dw db i = alphaOfDist (fsqrt ((pixelDistAt dw db i)\<^sup>2))"
  and "(pixelDistAt dw db i)\<^sup>2 \<in> \<int>"
  and "0 \<le> (pixelDistAt dw db i)\<^sup>2"
  and "(pixelDistAt dw db i)\<^sup>2 \<le> 195075"
proof -
  let ?d = "(channel dw (i * 4) - channel db (i * 4))\<^sup>2
         + (channel dw (i * 4 + 1) - channel db (i * 4 + 1))\<^sup>2
         + (channel dw (i * 4 + 2) - channel db (i * 4 + 2))\<^sup>2"
  have sq: "(pixelDistAt dw db i)\<^sup>2 = ?d"
    unfolding pixelDistAt_def by (rule real_sqrt_pow2) simp
  note m = matteAlpha_exact_dist [OF isByte_channel isByte_channel isByte_channel
      isByte_channel isByte_channel isByte_channel]
  show "computedAlpha dw db i = alphaOfDist (fsqrt ((pixelDistAt dw db i)\<^sup>2))"
    unfolding sq computedAlpha_def by (rule m(1))
  show "(pixelDistAt dw db i)\<^sup>2 \<in> \<int>" unfolding sq by (rule m(2))
  show "0 \<le> (pixelDistAt dw db i)\<^sup>2" by simp
  show "(pixelDistAt dw db i)\<^sup>2 \<le> 195075" unfolding sq by (rule m(3))
qed

lemma pixelDistAt_nonneg: "0 \<le> pixelDistAt dw db i"
  by (simp add: pixelDistAt_def)

lemma computedAlpha_number:
  "round (fmul (computedAlpha dw db i) 255)
     = round (clamp01 (1 - pixelDistAt dw db i / sqrt (3 * 255\<^sup>2)) * 255)"
proof -
  have "sqrt ((pixelDistAt dw db i)\<^sup>2) = pixelDistAt dw db i"
    using pixelDistAt_nonneg [of dw db i] by simp
  then show ?thesis
    using alpha_number_exact_Ints [OF computedAlpha_dist(2,3,4), of dw db i]
    unfolding computedAlpha_dist(1) by simp
qed

lemma computedAlpha_error:
  "\<bar>computedAlpha dw db i - alphaAt dw db i\<bar> \<le> 7 / 2 ^ 53"
proof -
  let ?p = "pixelDistAt dw db i"
  have s: "sqrt (?p\<^sup>2) = ?p" using pixelDistAt_nonneg [of dw db i] by simp
  have "?p\<^sup>2 \<le> 195075" by (rule computedAlpha_dist(4))
  then have "sqrt (?p\<^sup>2) \<le> sqrt 195075" by (simp only: real_sqrt_le_iff)
  then have le: "?p \<le> sqrt 195075" unfolding s .
  have "0 \<le> ?p / sqrt 195075" "?p / sqrt 195075 \<le> 1"
    using pixelDistAt_nonneg [of dw db i] le by (simp_all add: divide_le_eq)
  then have "clamp01 (1 - ?p / sqrt 195075) = 1 - ?p / sqrt 195075"
    by (simp add: clamp01_def)
  then have a: "alphaAt dw db i = 1 - ?p / sqrt 195075"
    by (simp add: alphaAt_def)
  show ?thesis
    using alpha_error [OF computedAlpha_dist(3,4), of dw db i]
    unfolding computedAlpha_dist(1) [symmetric] s a by (simp add: u53_def)
qed

lemma mattePixel_components:
  "mattePixel rW gW bW rB gB bB =
     (let alpha = matteAlpha rW gW bW rB gB bB
      in (round (min 255 (if alpha > dbl (1 / 100) then fdiv rB alpha else 0)),
          round (min 255 (if alpha > dbl (1 / 100) then fdiv gB alpha else 0)),
          round (min 255 (if alpha > dbl (1 / 100) then fdiv bB alpha else 0)),
          round (fmul alpha 255)))"
  by (simp add: mattePixel_def Let_def)

lemma extractAlphaTwoPass_stored:
  assumes "wellFormed imgOnWhite" and "wellFormed imgOnBlack"
    and "width imgOnWhite = width imgOnBlack" and "height imgOnWhite = height imgOnBlack"
    and "i < width imgOnWhite * height imgOnWhite"
  shows "\<exists>out. extractAlphaTwoPass imgOnWhite imgOnBlack = Inr out
          \<and> (let alpha = computedAlpha (data imgOnWhite) (data imgOnBlack) i
             in (\<forall>k<3. data out ! (i * 4 + k) =
                    word_of_int (round (min 255 (if alpha > dbl (1 / 100)
                       then fdiv (channel (data imgOnBlack) (i * 4 + k)) alpha else 0))))
                \<and> data out ! (i * 4 + 3) = word_of_int (round (fmul alpha 255)))"
proof -
  let ?dw = "data imgOnWhite" and ?db = "data imgOnBlack"
  let ?n = "width imgOnWhite * height imgOnWhite"
  let ?res = "foldl (twoPassStep ?dw ?db) (replicate (length ?dw) 0) [0..<?n]"
  let ?out = "\<lparr>width = width imgOnWhite, height = height imgOnWhite, data = ?res\<rparr>"
  have len: "length ?dw = length ?db"
    using assms(1-4) by (simp add: wellFormed_def)
  have inW: "i * 4 + 3 < length ?dw"
    using wellFormed_pixel [OF assms(1) assms(5), of 3] by simp
  then have inB: "i * 4 + 3 < length ?db" using len by simp
  have run: "extractAlphaTwoPass imgOnWhite imgOnBlack = Inr ?out"
    using len by (simp add: extractAlphaTwoPass_def Let_def)
  obtain rv gv bv av where px: "twoPassPixel ?dw ?db i = (rv, gv, bv, av)"
    by (cases "twoPassPixel ?dw ?db i") auto
  have stored: "?res ! (i * 4) = word_of_int rv \<and> ?res ! (i * 4 + 1) = word_of_int gv
       \<and> ?res ! (i * 4 + 2) = word_of_int bv \<and> ?res ! (i * 4 + 3) = word_of_int av"
    by (rule twoPassLoop_nth [OF assms(5) _ px]) (use inW in simp)
  define a where "a = computedAlpha ?dw ?db i"
  have matte: "(rv, gv, bv, av) =
      (round (min 255 (if a > dbl (1 / 100) then fdiv (channel ?db (i * 4)) a else 0)),
       round (min 255 (if a > dbl (1 / 100) then fdiv (channel ?db (i * 4 + 1)) a else 0)),
       round (min 255 (if a > dbl (1 / 100) then fdiv (channel ?db (i * 4 + 2)) a else 0)),
       round (fmul a 255))"
    using px twoPassPixel_in_range [OF inW inB]
    by (simp only: mattePixel_components Let_def a_def computedAlpha_def)
  have "?res ! (i * 4 + k) =
       word_of_int (round (min 255 (if a > dbl (1 / 100) then fdiv (channel ?db (i * 4 + k)) a else 0)))"
    if "k < 3" for k
  proof -
    have "k = 0 \<or> k = 1 \<or> k = 2" using that by auto
    then consider "k = 0" | "k = 1" | "k = 2" by blast
    then show ?thesis using stored matte by cases simp_all
  qed
  then have "\<forall>k<3. ?res ! (i * 4 + k) =
       word_of_int (round (min 255 (if a > dbl (1 / 100) then fdiv (channel ?db (i * 4 + k)) a else 0)))"
    by blast
  moreover have "?res ! (i * 4 + 3) = word_of_int (round (fmul a 255))"
    using stored matte by simp
  ultimately show ?thesis
    unfolding Let_def a_def [symmetric] using run by simp
qed

lemma computedAlpha_opaque:
  assumes "pixelDistAt dw db i = 0"
  shows "computedAlpha dw db i = 1"
proof -
  have "computedAlpha dw db i = alphaOfDist (fsqrt 0)"
    using computedAlpha_dist(1) [of dw db i] assms by simp
  also have "\<dots> = 1"
    by (simp add: alphaOfDist_clamp fsqrt_def fdiv_def fsub_def clamp01_def)
  finally show ?thesis .
qed

lemma fdiv_one_byte: "fdiv (channel buf k) 1 = channel buf k"
  unfolding fdiv_def using isByte_channel [of buf k] by (simp add: isByte_def dbl_Ints)

lemma example_alpha:
  "computedAlpha [86, 85, 85, 255] [1, 0, 0, 255] 0 = 3002399751580331 / 4503599627370496"
proof -
  have "(pixelDistAt [86, 85, 85, 255] [1, 0, 0, 255] 0)\<^sup>2 = 21675"
    by (simp add: pixelDistAt_def channel_def)
  then show ?thesis
    unfolding computedAlpha_dist(1) by (simp only: alpha_third)
qed





lemma length_chromaLoop: "length (foldl (chromaStep t bg) buf [0..<n]) = length buf"
  using sameRGB_chromaLoop [of t bg buf n] by (simp add: sameRGB_def)

text \<open>
  A second pixel where the quotient of the colour recovery is just below a half: white
  pass (100, 162, 224) over black pass (31, 93, 155). The stored bytes are 42, 127, 212
  and the alpha byte 186.
\<close>

lemma fsqrt_14283: "fsqrt 14283 = 1051234321557077 / 8796093022208"
proof -
  have r: "rne (sqrt 14283 * 2 ^ 46) = 8409874572456616"
    by (rule rne_sqrtI) simp_all
  have eq: "sqrt 14283 * 2 ^ 52 / 64 = sqrt 14283 * 2 ^ 46" by simp
  have "dbl (sqrt 14283) = of_int 8409874572456616 * 64 / 2 ^ 52"
  proof (rule dbl_evalI [where e = 6])
    show "2 powr real_of_int 6 = 64" by simp
    show "64 \<le> sqrt 14283" by (rule real_le_rsqrt) simp
    show "sqrt 14283 < 2 * 64" by (rule real_less_lsqrt) simp_all
    show "rne (sqrt 14283 * 2 ^ 52 / 64) = 8409874572456616" unfolding eq by (rule r)
  qed
  also have "\<dots> = 1051234321557077 / 8796093022208" by simp
  finally show ?thesis unfolding fsqrt_def .
qed

lemma alpha_14283: "alphaOfDist (fsqrt 14283) = 821244637932267 / 1125899906842624"
proof -
  have "dbl (1051234321557077 / 8796093022208 / (3884996405754415 / 8796093022208)) = of_int 4874484302565713 * (1 / 4) / 2 ^ 52"
  proof (rule dbl_evalI [where e = "- 2"])
    show "2 powr real_of_int (- 2) = 1 / 4" by (simp add: powr_minus_divide)
    show "rne ((1051234321557077 / 8796093022208 / (3884996405754415 / 8796093022208)) * 2 ^ 52 / (1 / 4)) = 4874484302565713"
      by (simp add: rne_def Let_def)
  qed simp_all
  also have "\<dots> = 4874484302565713 / 18014398509481984" by simp
  finally have q: "fdiv (fsqrt 14283) bgDist = 4874484302565713 / 18014398509481984"
    unfolding fdiv_def fsqrt_14283 bgDist_value .
  have "dbl (1 - 4874484302565713 / 18014398509481984) = of_int 6569957103458136 * (1 / 2) / 2 ^ 52"
  proof (rule dbl_evalI [where e = "- 1"])
    show "2 powr real_of_int (- 1) = 1 / 2" by (simp add: powr_minus_divide)
    show "rne ((1 - 4874484302565713 / 18014398509481984) * 2 ^ 52 / (1 / 2)) = 6569957103458136"
      by (simp add: rne_def Let_def)
  qed simp_all
  also have "\<dots> = 821244637932267 / 1125899906842624" by simp
  finally have a0: "fsub 1 (4874484302565713 / 18014398509481984) = 821244637932267 / 1125899906842624"
    unfolding fsub_def .
  show ?thesis
    unfolding alphaOfDist_clamp q a0 by (simp add: clamp01_def)
qed

lemma recovered_14283_31: "round (min 255 (fdiv 31 (821244637932267 / 1125899906842624))) = 42"
proof -
  have "dbl (31 / (821244637932267 / 1125899906842624)) = of_int 5981343255101439 * 32 / 2 ^ 52"
  proof (rule dbl_evalI [where e = "5"])
    show "2 powr real_of_int (5) = 32" by (simp add: powr_minus_divide)
    show "rne ((31 / (821244637932267 / 1125899906842624)) * 2 ^ 52 / 32) = 5981343255101439"
      by (simp add: rne_def Let_def)
  qed simp_all
  also have "\<dots> = 5981343255101439 / 140737488355328" by simp
  finally have v: "fdiv 31 (821244637932267 / 1125899906842624) = 5981343255101439 / 140737488355328"
    unfolding fdiv_def .
  show ?thesis unfolding v by (simp add: round_def)
qed

lemma recovered_14283_93: "round (min 255 (fdiv 93 (821244637932267 / 1125899906842624))) = 127"
proof -
  have "dbl (93 / (821244637932267 / 1125899906842624)) = of_int 8972014882652159 * 64 / 2 ^ 52"
  proof (rule dbl_evalI [where e = "6"])
    show "2 powr real_of_int (6) = 64" by (simp add: powr_minus_divide)
    show "rne ((93 / (821244637932267 / 1125899906842624)) * 2 ^ 52 / 64) = 8972014882652159"
      by (simp add: rne_def Let_def)
  qed simp_all
  also have "\<dots> = 8972014882652159 / 70368744177664" by simp
  finally have v: "fdiv 93 (821244637932267 / 1125899906842624) = 8972014882652159 / 70368744177664"
    unfolding fdiv_def .
  show ?thesis unfolding v by (simp add: round_def)
qed

lemma recovered_14283_155: "round (min 255 (fdiv 155 (821244637932267 / 1125899906842624))) = 212"
proof -
  have "dbl (155 / (821244637932267 / 1125899906842624)) = of_int 7476679068876799 * 128 / 2 ^ 52"
  proof (rule dbl_evalI [where e = "7"])
    show "2 powr real_of_int (7) = 128" by (simp add: powr_minus_divide)
    show "rne ((155 / (821244637932267 / 1125899906842624)) * 2 ^ 52 / 128) = 7476679068876799"
      by (simp add: rne_def Let_def)
  qed simp_all
  also have "\<dots> = 7476679068876799 / 35184372088832" by simp
  finally have v: "fdiv 155 (821244637932267 / 1125899906842624) = 7476679068876799 / 35184372088832"
    unfolding fdiv_def .
  show ?thesis unfolding v by (simp add: round_def)
qed

lemma alpha_number_14283: "round (fmul (821244637932267 / 1125899906842624) 255) = 186"
proof -
  have "dbl (821244637932267 / 1125899906842624 * 255) = of_int 6544293208522753 * 128 / 2 ^ 52"
  proof (rule dbl_evalI [where e = "7"])
    show "2 powr real_of_int (7) = 128" by (simp add: powr_minus_divide)
    show "rne ((821244637932267 / 1125899906842624 * 255) * 2 ^ 52 / 128) = 6544293208522753"
      by (simp add: rne_def Let_def)
  qed simp_all
  also have "\<dots> = 6544293208522753 / 35184372088832" by simp
  finally have v: "fmul (821244637932267 / 1125899906842624) 255 = 6544293208522753 / 35184372088832"
    unfolding fmul_def .
  show ?thesis unfolding v by (simp add: round_def)
qed

lemma example_alpha_14283:
  "computedAlpha [100, 162, 224, 255] [31, 93, 155, 255] 0 = 821244637932267 / 1125899906842624"
proof -
  have "(pixelDistAt [100, 162, 224, 255] [31, 93, 155, 255] 0)\<^sup>2 = 14283"
    by (simp add: pixelDistAt_def channel_def)
  then show ?thesis
    unfolding computedAlpha_dist(1) by (simp only: alpha_14283)
qed

lemma extractAlphaTwoPass_second_example:
  "\<exists>out. extractAlphaTwoPass \<lparr>width = 1, height = 1, data = [100, 162, 224, 255]\<rparr>
                              \<lparr>width = 1, height = 1, data = [31, 93, 155, 255]\<rparr> = Inr out
         \<and> data out ! (0 * 4 + 0) = 42 \<and> data out ! (0 * 4 + 1) = 127
         \<and> data out ! (0 * 4 + 2) = 212 \<and> data out ! (0 * 4 + 3) = 186"
proof -
  let ?w = "\<lparr>width = 1, height = 1, data = [100, 162, 224, 255 :: byte]\<rparr>"
  let ?b = "\<lparr>width = 1, height = 1, data = [31, 93, 155, 255 :: byte]\<rparr>"
  let ?a = "821244637932267 / 1125899906842624 :: real"
  have wf: "wellFormed ?w" "wellFormed ?b" by (simp_all add: wellFormed_def)
  have "\<bar>dbl (1 / 100) - 1 / 100\<bar> \<le> 1 * u53"
    by (rule dbl_abs_error) simp
  then have "dbl (1 / 100) < 1 / 2"
    using u53_bounds by linarith
  then have gt: "dbl (1 / 100) < ?a" by simp
  obtain out where run: "extractAlphaTwoPass ?w ?b = Inr out"
    and rgb: "\<forall>k<3. data out ! (0 * 4 + k) =
                word_of_int (round (min 255 (fdiv (channel [31, 93, 155, 255] (0 * 4 + k)) ?a)))"
    and al: "data out ! (0 * 4 + 3) = word_of_int (round (fmul ?a 255))"
    using extractAlphaTwoPass_stored [of ?w ?b 0] wf gt
    by (auto simp add: Let_def example_alpha_14283)
  have "data out ! (0 * 4 + 0) = 42"
    using rgb [rule_format, of 0] recovered_14283_31 by (simp add: channel_def)
  moreover have "data out ! (0 * 4 + 1) = 127"
    using rgb [rule_format, of 1] recovered_14283_93 by (simp add: channel_def)
  moreover have "data out ! (0 * 4 + 2) = 212"
    using rgb [rule_format, of 2] recovered_14283_155 by (simp add: channel_def)
  moreover have "data out ! (0 * 4 + 3) = 186"
    using al alpha_number_14283 by simp
  ultimately show ?thesis using run by simp
qed

section \<open>Difference matting\<close>

text \<open>
  C1. For two well-formed images of the same width and height, the alpha byte of every
  pixel is \<open>round (clamp (1 - pixelDist / bgDist) * 255)\<close>, with \<open>pixelDist\<close> the
  Euclidean distance of the two colours of the pixel and \<open>bgDist = sqrt (3 * 255\<^sup>2)\<close>,
  both taken exactly: the roundings of the double arithmetic never move the product
  across a half. Where \<open>pixelDist\<close> is \<open>0\<close>, the alpha byte is \<open>255\<close> and the three
  colour bytes are those of the black pass.
\<close>

theorem extractAlphaTwoPass_alpha_formula:
  assumes "wellFormed imgOnWhite" and "wellFormed imgOnBlack"
    and "width imgOnWhite = width imgOnBlack" and "height imgOnWhite = height imgOnBlack"
    and "i < width imgOnWhite * height imgOnWhite"
  shows "\<exists>out. extractAlphaTwoPass imgOnWhite imgOnBlack = Inr out
           \<and> uint (data out ! (i * 4 + 3))
               = round (clamp01 (1 - pixelDistAt (data imgOnWhite) (data imgOnBlack) i / sqrt (3 * 255\<^sup>2)) * 255)
           \<and> (pixelDistAt (data imgOnWhite) (data imgOnBlack) i = 0 \<longrightarrow>
                data out ! (i * 4 + 3) = 255
                \<and> data out ! (i * 4) = data imgOnBlack ! (i * 4)
                \<and> data out ! (i * 4 + 1) = data imgOnBlack ! (i * 4 + 1)
                \<and> data out ! (i * 4 + 2) = data imgOnBlack ! (i * 4 + 2))"
proof -
  let ?dw = "data imgOnWhite" and ?db = "data imgOnBlack"
  define a where "a = computedAlpha ?dw ?db i"
  obtain out where run: "extractAlphaTwoPass imgOnWhite imgOnBlack = Inr out"
    and rgb: "\<forall>k<3. data out ! (i * 4 + k) =
                word_of_int (round (min 255 (if a > dbl (1 / 100)
                   then fdiv (channel ?db (i * 4 + k)) a else 0)))"
    and al: "data out ! (i * 4 + 3) = word_of_int (round (fmul a 255))"
    using extractAlphaTwoPass_stored [OF assms] unfolding Let_def a_def by blast
  let ?x = "1 - pixelDistAt ?dw ?db i / sqrt (3 * 255\<^sup>2)"
  have num: "round (fmul a 255) = round (clamp01 ?x * 255)"
    unfolding a_def by (rule computedAlpha_number)
  have byte: "uint (data out ! (i * 4 + 3)) = round (clamp01 ?x * 255)"
    unfolding al num by (rule uint_byte_of_int [OF round_alpha_range [OF clamp01_bounds]])
  have opaque: "data out ! (i * 4 + 3) = 255 \<and> data out ! (i * 4) = ?db ! (i * 4)
       \<and> data out ! (i * 4 + 1) = ?db ! (i * 4 + 1) \<and> data out ! (i * 4 + 2) = ?db ! (i * 4 + 2)"
    if zero: "pixelDistAt ?dw ?db i = 0"
  proof -
    have a1: "a = 1" unfolding a_def by (rule computedAlpha_opaque [OF zero])
    have col: "data out ! (i * 4 + k) = ?db ! (i * 4 + k)" if "k < 3" for k
    proof -
      have "min 255 (channel ?db (i * 4 + k)) = channel ?db (i * 4 + k)"
        using channel_bounds(2) [of ?db "i * 4 + k"] by simp
      then show ?thesis
        using rgb that literal_bounds(2) by (simp add: a1 fdiv_one_byte byte_of_channel)
    qed
    have "data out ! (i * 4 + 3) = 255"
      unfolding al a1 by (simp add: fmul_def)
    then show ?thesis using col [of 0] col [of 1] col [of 2] by simp
  qed
  show ?thesis using run byte opaque by blast
qed

theorem extractAlphaTwoPass_alpha_formula_witness:
  "wellFormed \<lparr>width = 1, height = 1, data = [200, 100, 50, 255]\<rparr>
   \<and> (0::nat) < 1 * 1
   \<and> (\<exists>out. extractAlphaTwoPass \<lparr>width = 1, height = 1, data = [200, 100, 50, 255]\<rparr>
                                 \<lparr>width = 1, height = 1, data = [200, 100, 50, 255]\<rparr> = Inr out
          \<and> data out ! (0 * 4 + 3) = 255 \<and> data out ! (0 * 4) = 200
          \<and> data out ! (0 * 4 + 1) = 100 \<and> data out ! (0 * 4 + 2) = 50)"
  using extractAlphaTwoPass_alpha_formula [of "\<lparr>width = 1, height = 1, data = [200, 100, 50, 255]\<rparr>"
      "\<lparr>width = 1, height = 1, data = [200, 100, 50, 255]\<rparr>" 0]
  by (simp add: wellFormed_def pixelDistAt_def) blast

text \<open>
  C5. For every pixel of two well-formed images of the same dimensions the call returns
  an image. The alpha that the loop computes is within \<open>7 / 2\<^sup>5\<^sup>3\<close> of the
  specification's \<open>clamp (1 - pixelDist / bgDist)\<close>. Where it is at most the literal
  \<open>0.01\<close> the three colour bytes are \<open>0\<close>; where it is greater, each colour byte is
  \<open>round (min 255 (blackChannel / alpha))\<close> with the quotient of the doubles, a number
  between 0 and 255 that the byte holds without wrapping.
\<close>

theorem extractAlphaTwoPass_color_recovery:
  assumes "wellFormed imgOnWhite" and "wellFormed imgOnBlack"
    and "width imgOnWhite = width imgOnBlack" and "height imgOnWhite = height imgOnBlack"
    and "i < width imgOnWhite * height imgOnWhite"
  shows "\<exists>out. extractAlphaTwoPass imgOnWhite imgOnBlack = Inr out
          \<and> (let alpha = computedAlpha (data imgOnWhite) (data imgOnBlack) i
             in \<bar>alpha - alphaAt (data imgOnWhite) (data imgOnBlack) i\<bar> \<le> 7 / 2 ^ 53
                \<and> (alpha \<le> dbl (1 / 100) \<longrightarrow> (\<forall>k<3. data out ! (i * 4 + k) = 0))
                \<and> (alpha > dbl (1 / 100) \<longrightarrow>
                     (\<forall>k<3. uint (data out ! (i * 4 + k))
                               = round (min 255 (fdiv (channel (data imgOnBlack) (i * 4 + k)) alpha)))))"
proof -
  define a where "a = computedAlpha (data imgOnWhite) (data imgOnBlack) i"
  obtain out where run: "extractAlphaTwoPass imgOnWhite imgOnBlack = Inr out"
    and rgb: "\<forall>k<3. data out ! (i * 4 + k) =
                word_of_int (round (min 255 (if a > dbl (1 / 100)
                   then fdiv (channel (data imgOnBlack) (i * 4 + k)) a else 0)))"
    using extractAlphaTwoPass_stored [OF assms] unfolding Let_def a_def by blast
  have err: "\<bar>a - alphaAt (data imgOnWhite) (data imgOnBlack) i\<bar> \<le> 7 / 2 ^ 53"
    unfolding a_def by (rule computedAlpha_error)
  have low: "\<forall>k<3. data out ! (i * 4 + k) = 0" if "a \<le> dbl (1 / 100)"
    using rgb that by simp
  have high: "\<forall>k<3. uint (data out ! (i * 4 + k))
                 = round (min 255 (fdiv (channel (data imgOnBlack) (i * 4 + k)) a))"
    if "a > dbl (1 / 100)"
  proof (intro allI impI)
    fix k :: nat
    assume "k < 3"
    have "data out ! (i * 4 + k)
            = word_of_int (round (min 255 (fdiv (channel (data imgOnBlack) (i * 4 + k)) a)))"
      using rgb \<open>k < 3\<close> that by simp
    then show "uint (data out ! (i * 4 + k))
                 = round (min 255 (fdiv (channel (data imgOnBlack) (i * 4 + k)) a))"
      using uint_byte_of_int [OF recovered_range [OF channel_bounds(1) that]] by simp
  qed
  show ?thesis
    unfolding Let_def a_def [symmetric] using run err low high by blast
qed

text \<open>
  The white-pass pixel (86, 85, 85) over the black-pass pixel (1, 0, 0): the computed
  alpha is the double next to two thirds, the quotient \<open>1 / alpha\<close> is the double just
  below \<open>1.5\<close>, and the red byte is \<open>1\<close>.
\<close>

theorem extractAlphaTwoPass_color_recovery_witness:
  "wellFormed \<lparr>width = 1, height = 1, data = [86, 85, 85, 255]\<rparr>
   \<and> wellFormed \<lparr>width = 1, height = 1, data = [1, 0, 0, 255]\<rparr>
   \<and> (0::nat) < 1 * 1
   \<and> computedAlpha [86, 85, 85, 255] [1, 0, 0, 255] 0 > dbl (1 / 100)
   \<and> (\<exists>out. extractAlphaTwoPass \<lparr>width = 1, height = 1, data = [86, 85, 85, 255]\<rparr>
                                 \<lparr>width = 1, height = 1, data = [1, 0, 0, 255]\<rparr> = Inr out
          \<and> uint (data out ! (0 * 4 + 0)) = 1
          \<and> uint (data out ! (0 * 4 + 1)) = 0
          \<and> uint (data out ! (0 * 4 + 2)) = 0)"
proof -
  let ?w = "\<lparr>width = 1, height = 1, data = [86, 85, 85, 255 :: byte]\<rparr>"
  let ?b = "\<lparr>width = 1, height = 1, data = [1, 0, 0, 255 :: byte]\<rparr>"
  let ?a = "3002399751580331 / 4503599627370496 :: real"
  have wf: "wellFormed ?w" "wellFormed ?b" by (simp_all add: wellFormed_def)
  have "\<bar>dbl (1 / 100) - 1 / 100\<bar> \<le> 1 * u53"
    by (rule dbl_abs_error) simp
  then have "dbl (1 / 100) < 1 / 2"
    using u53_bounds by linarith
  then have gt: "dbl (1 / 100) < ?a" by simp
  obtain out where run: "extractAlphaTwoPass ?w ?b = Inr out"
    and rgb: "\<forall>k<3. uint (data out ! (0 * 4 + k)) = round (min 255 (fdiv (channel [1, 0, 0, 255] (0 * 4 + k)) ?a))"
    using extractAlphaTwoPass_color_recovery [OF wf, of 0] gt
    by (auto simp add: Let_def example_alpha)
  have zero: "round (min 255 (fdiv 0 ?a)) = 0" by (simp add: fdiv_def)
  have "uint (data out ! (0 * 4 + 0)) = 1"
    using rgb [rule_format, of 0] recovered_red by (simp add: channel_def)
  moreover have "uint (data out ! (0 * 4 + 1)) = 0"
    using rgb [rule_format, of 1] zero by (simp add: channel_def)
  moreover have "uint (data out ! (0 * 4 + 2)) = 0"
    using rgb [rule_format, of 2] zero by (simp add: channel_def)
  ultimately show ?thesis
    using wf run gt by (simp add: example_alpha)
qed

text \<open>
  C7. The alpha byte does not increase with the distance: of two pixels, in the same or
  in different runs, the one with the smaller \<open>pixelDist\<close> has the larger or equal
  alpha byte.
\<close>

theorem extractAlphaTwoPass_alpha_monotone:
  assumes "wellFormed white1" and "wellFormed black1"
    and "width white1 = width black1" and "height white1 = height black1"
    and "i < width white1 * height white1"
    and "wellFormed white2" and "wellFormed black2"
    and "width white2 = width black2" and "height white2 = height black2"
    and "j < width white2 * height white2"
    and "pixelDistAt (data white1) (data black1) i \<le> pixelDistAt (data white2) (data black2) j"
  shows "\<exists>out1 out2. extractAlphaTwoPass white1 black1 = Inr out1
           \<and> extractAlphaTwoPass white2 black2 = Inr out2
           \<and> data out2 ! (j * 4 + 3) \<le> data out1 ! (i * 4 + 3)"
proof -
  let ?p1 = "pixelDistAt (data white1) (data black1) i"
  let ?p2 = "pixelDistAt (data white2) (data black2) j"
  define a1 where "a1 = computedAlpha (data white1) (data black1) i"
  define a2 where "a2 = computedAlpha (data white2) (data black2) j"
  obtain out1 where run1: "extractAlphaTwoPass white1 black1 = Inr out1"
    and al1: "data out1 ! (i * 4 + 3) = word_of_int (round (fmul a1 255))"
    using extractAlphaTwoPass_stored [OF assms(1-5)] unfolding Let_def a1_def by blast
  obtain out2 where run2: "extractAlphaTwoPass white2 black2 = Inr out2"
    and al2: "data out2 ! (j * 4 + 3) = word_of_int (round (fmul a2 255))"
    using extractAlphaTwoPass_stored [OF assms(6-10)] unfolding Let_def a2_def by blast
  have "?p1\<^sup>2 \<le> ?p2\<^sup>2"
    using assms(11) pixelDistAt_nonneg [of "data white1" "data black1" i]
    by (intro power_mono) simp_all
  then have "round (fmul a2 255) \<le> round (fmul a1 255)"
    unfolding a1_def a2_def computedAlpha_dist(1) by (rule alpha_number_antimono)
  moreover have "uint (data out1 ! (i * 4 + 3)) = round (fmul a1 255)"
    unfolding al1 a1_def computedAlpha_dist(1) by (rule uint_byte_of_int [OF alpha_number_range])
  moreover have "uint (data out2 ! (j * 4 + 3)) = round (fmul a2 255)"
    unfolding al2 a2_def computedAlpha_dist(1) by (rule uint_byte_of_int [OF alpha_number_range])
  ultimately have "data out2 ! (j * 4 + 3) \<le> data out1 ! (i * 4 + 3)"
    by (simp add: word_le_def)
  then show ?thesis using run1 run2 by blast
qed

theorem extractAlphaTwoPass_alpha_monotone_witness:
  "wellFormed \<lparr>width = 1, height = 1, data = [200, 100, 50, 255]\<rparr>
   \<and> wellFormed \<lparr>width = 1, height = 1, data = [255, 255, 255, 255]\<rparr>
   \<and> wellFormed \<lparr>width = 1, height = 1, data = [0, 0, 0, 255]\<rparr>
   \<and> pixelDistAt [200, 100, 50, 255] [200, 100, 50, 255] 0 \<le> pixelDistAt [255, 255, 255, 255] [0, 0, 0, 255] 0
   \<and> (\<exists>out1 out2.
         extractAlphaTwoPass \<lparr>width = 1, height = 1, data = [200, 100, 50, 255]\<rparr>
                             \<lparr>width = 1, height = 1, data = [200, 100, 50, 255]\<rparr> = Inr out1
       \<and> extractAlphaTwoPass \<lparr>width = 1, height = 1, data = [255, 255, 255, 255]\<rparr>
                             \<lparr>width = 1, height = 1, data = [0, 0, 0, 255]\<rparr> = Inr out2
       \<and> data out2 ! (0 * 4 + 3) \<le> data out1 ! (0 * 4 + 3))"
proof -
  have d: "pixelDistAt [200, 100, 50, 255] [200, 100, 50, 255] 0 \<le> pixelDistAt [255, 255, 255, 255] [0, 0, 0, 255] 0"
    by (simp add: pixelDistAt_def)
  show ?thesis
    using d extractAlphaTwoPass_alpha_monotone [of "\<lparr>width = 1, height = 1, data = [200, 100, 50, 255]\<rparr>"
      "\<lparr>width = 1, height = 1, data = [200, 100, 50, 255]\<rparr>" 0
      "\<lparr>width = 1, height = 1, data = [255, 255, 255, 255]\<rparr>"
      "\<lparr>width = 1, height = 1, data = [0, 0, 0, 255]\<rparr>" 0]
    by (simp add: wellFormed_def)
qed

section \<open>Dimension check\<close>

text \<open>
  C2. Two inputs whose width or height differ are to be refused with a dimension
  mismatch. The check compares the buffer lengths only: a 2 by 3 white pass and a 3 by 2
  black pass have 24 bytes each and are processed, with the white pass's geometry.
\<close>

theorem extractAlphaTwoPass_transposed_accepted:
  "wellFormed \<lparr>width = 2, height = 3, data = replicate 24 0\<rparr> \<and>
   wellFormed \<lparr>width = 3, height = 2, data = replicate 24 0\<rparr> \<and>
   (\<exists>out. extractAlphaTwoPass \<lparr>width = 2, height = 3, data = replicate 24 0\<rparr>
                               \<lparr>width = 3, height = 2, data = replicate 24 0\<rparr> = Inr out
          \<and> width out = 2 \<and> height out = 3 \<and> length (data out) = 24)"
  by (simp add: wellFormed_def extractAlphaTwoPass_def Let_def)

section \<open>Chroma key\<close>

text \<open>
  C8. Running the chroma key on its own output, with the same background option and
  tolerance, returns that output again: the colour bytes were not changed, so the corner
  estimate and every pixel's distance are the same, and so is every alpha byte.
\<close>

theorem removeBackgroundLocal_idempotent:
  assumes "removeBackgroundLocal img bgColorOption toleranceOption = Inr out"
  shows "removeBackgroundLocal out bgColorOption toleranceOption = Inr out"
proof -
  define t where "t = (case toleranceOption of None \<Rightarrow> 30 | Some t \<Rightarrow> t)"
  obtain bg where bg: "resolveBgColor img bgColorOption = Inr bg"
    using assms by (auto simp add: removeBackgroundLocal_def Let_def split: sum.splits)
  let ?n = "width img * height img"
  have out: "out = \<lparr>width = width img, height = height img,
                     data = foldl (chromaStep t bg) (data img) [0..<?n]\<rparr>"
    using assms bg by (simp add: removeBackgroundLocal_def Let_def t_def)
  have "sameRGB (data out) (data img)" "width out = width img" "height out = height img"
    by (simp_all add: out sameRGB_chromaLoop)
  then have bg': "resolveBgColor out bgColorOption = Inr bg"
    using bg by (simp add: sameRGB_resolveBgColor)
  have "removeBackgroundLocal out bgColorOption toleranceOption
          = Inr \<lparr>width = width out, height = height out,
                 data = foldl (chromaStep t bg) (data out) [0..<width out * height out]\<rparr>"
    using bg' by (simp add: removeBackgroundLocal_def Let_def t_def)
  also have "\<dots> = Inr out"
    by (simp add: out chromaLoop_idem)
  finally show ?thesis .
qed

theorem removeBackgroundLocal_idempotent_witness:
  "removeBackgroundLocal \<lparr>width = 1, height = 1, data = [255, 255, 255, 255]\<rparr> (Some ''white'') None
     = Inr \<lparr>width = 1, height = 1, data = [255, 255, 255, 0]\<rparr>
   \<and> removeBackgroundLocal \<lparr>width = 1, height = 1, data = [255, 255, 255, 0]\<rparr> (Some ''white'') None
     = Inr \<lparr>width = 1, height = 1, data = [255, 255, 255, 0]\<rparr>"
proof -
  have first: "removeBackgroundLocal \<lparr>width = 1, height = 1, data = [255, 255, 255, 255]\<rparr> (Some ''white'') None
     = Inr \<lparr>width = 1, height = 1, data = [255, 255, 255, 0]\<rparr>"
    by (simp add: removeBackgroundLocal_def resolveBgColor_def parseColor_def someColor_def
        chromaStep_def distSquaredAt_def rd_def jsub_def jadd_def jmul_def pixelAlpha_def
        alphaNumber_def wr_def Let_def)
  show ?thesis
    using first removeBackgroundLocal_idempotent [OF first] by simp
qed

text \<open>
  C9. With no background colour given, or \<^verbatim>\<open>'auto'\<close>, the background of a well-formed
  image of at least one pixel is, for each channel, the rounded quarter of the sum of that
  channel over the four corner pixels, at the offsets \<open>0\<close>, \<open>(width - 1) * 4\<close>,
  \<open>(height - 1) * width * 4\<close> and \<open>((height - 1) * width + (width - 1)) * 4\<close>.
\<close>

theorem autoBgColor_corner_average:
  assumes "wellFormed img" and "1 \<le> width img" and "1 \<le> height img"
  shows "autoBgColor img = (Some (cornerAverage img 0), Some (cornerAverage img 1), Some (cornerAverage img 2))
       \<and> resolveBgColor img None = Inr (autoBgColor img)
       \<and> resolveBgColor img (Some ''auto'') = Inr (autoBgColor img)"
  using autoBgColor_wellFormed [OF assms] by (simp add: resolveBgColor_def)

theorem autoBgColor_corner_average_witness:
  "wellFormed \<lparr>width = 2, height = 2,
      data = [0, 255, 0, 255,  1, 255, 0, 255,  0, 254, 3, 255,  1, 255, 0, 255]\<rparr>
   \<and> autoBgColor \<lparr>width = 2, height = 2,
      data = [0, 255, 0, 255,  1, 255, 0, 255,  0, 254, 3, 255,  1, 255, 0, 255]\<rparr>
       = (Some 1, Some 255, Some 1)"
  using autoBgColor_corner_average [of "\<lparr>width = 2, height = 2,
      data = [0, 255, 0, 255,  1, 255, 0, 255,  0, 254, 3, 255,  1, 255, 0, 255]\<rparr>"]
  by (simp add: wellFormed_def cornerAverage_def channel_def Let_def round_def)



text \<open>
  C10. For a tolerance between 0 and 255 the alpha of a pixel is always a finite number:
  the ramp never divides by zero. With tolerance 0 no distance lies in the ramp's band,
  the alpha is 0 at distance 0 and 1 above it, and the byte stored is 0 or 255.
\<close>

theorem pixelAlpha_no_division_by_zero:
  assumes "0 \<le> T" and "T \<le> 255"
  shows "(\<exists>a. pixelAlpha T distSquared = Some a)
       \<and> (T = 0 \<longrightarrow>
            (\<forall>d. \<not> (T * T < d \<and> d \<le> (T * 2) * (T * 2)))
            \<and> (\<forall>d\<ge>0. pixelAlpha T (Some d) = Some (if d = 0 then 0 else 1))
            \<and> (\<forall>bgColor buf i. i * 4 + 3 < length buf \<longrightarrow>
                  chromaStep T bgColor buf i ! (i * 4 + 3) = 0
                  \<or> chromaStep T bgColor buf i ! (i * 4 + 3) = 255))"
proof -
  have zero: "pixelAlpha 0 ds = Some 0 \<or> pixelAlpha 0 ds = Some 1" for ds
    by (simp add: pixelAlpha_def split: option.splits)
  have num: "alphaNumber (pixelAlpha 0 ds) = 0 \<or> alphaNumber (pixelAlpha 0 ds) = 255" for ds
    using zero [of ds] by (auto simp add: alphaNumber_def)
  have bytes: "chromaStep 0 bgColor buf i ! (i * 4 + 3) = 0
                  \<or> chromaStep 0 bgColor buf i ! (i * 4 + 3) = 255"
    if "i * 4 + 3 < length buf" for bgColor buf i
    using that num [of "distSquaredAt bgColor buf i"] by (auto simp add: chromaStep_def nth_wr_same)
  have "pixelAlpha 0 (Some d) = Some (if d = 0 then 0 else 1)" if "0 \<le> d" for d
    using that by (simp add: pixelAlpha_def)
  then show ?thesis
    using pixelAlpha_finite [of T distSquared] bytes by auto
qed

theorem pixelAlpha_no_division_by_zero_witness:
  "(0::real) \<le> 0 \<and> (0::real) \<le> 255
   \<and> pixelAlpha 0 (Some 0) = Some 0 \<and> pixelAlpha 0 (Some 5) = Some 1
   \<and> (\<exists>a. pixelAlpha 0 None = Some a)"
  using pixelAlpha_no_division_by_zero [of 0 None] pixelAlpha_no_division_by_zero [of 0 "Some 5"]
  by simp

section \<open>The ramp of the chroma key\<close>



section \<open>Tolerances outside the range\<close>

text \<open>
  C3. A tolerance outside 0..255 is said to be refused by the engine. It is not: with
  tolerance 300 a white pixel on a white background is processed and made transparent.
\<close>

theorem removeBackgroundLocal_accepts_any_tolerance_example:
  "removeBackgroundLocal \<lparr>width = 1, height = 1, data = [255, 255, 255, 255]\<rparr> (Some ''white'') (Some 300)
     = Inr \<lparr>width = 1, height = 1, data = [255, 255, 255, 0]\<rparr>"
  by (simp add: removeBackgroundLocal_def resolveBgColor_def parseColor_def someColor_def
      chromaStep_def distSquaredAt_def rd_def jsub_def jadd_def jmul_def pixelAlpha_def
      alphaNumber_def wr_def Let_def)

text \<open>
  C3, as the code has it. The engine never refuses a tolerance: for every tolerance it
  fails exactly when the background colour does not parse, with that error and without
  an image, and otherwise returns the processed image with the dimensions of the input.
\<close>

theorem removeBackgroundLocal_no_tolerance_check:
  "removeBackgroundLocal img bgColorOption toleranceOption \<noteq> Inl InvalidTolerance
   \<and> (\<forall>e. removeBackgroundLocal img bgColorOption toleranceOption = Inl e
            \<longleftrightarrow> resolveBgColor img bgColorOption = Inl e)
   \<and> (\<forall>e. resolveBgColor img bgColorOption = Inl e \<longrightarrow> (\<exists>c. e = InvalidColor c))
   \<and> (\<forall>bgColor. resolveBgColor img bgColorOption = Inr bgColor \<longrightarrow>
         (\<exists>out. removeBackgroundLocal img bgColorOption toleranceOption = Inr out
                \<and> width out = width img \<and> height out = height img
                \<and> length (data out) = length (data img)))"
proof -
  have same: "removeBackgroundLocal img bgColorOption toleranceOption = Inl e
            \<longleftrightarrow> resolveBgColor img bgColorOption = Inl e" for e
    by (simp add: removeBackgroundLocal_def Let_def split: sum.splits)
  have never: "removeBackgroundLocal img bgColorOption toleranceOption \<noteq> Inl InvalidTolerance"
    using same [of InvalidTolerance] resolveBgColor_error [of img bgColorOption InvalidTolerance]
    by auto
  have runs: "\<exists>out. removeBackgroundLocal img bgColorOption toleranceOption = Inr out
                \<and> width out = width img \<and> height out = height img
                \<and> length (data out) = length (data img)"
    if "resolveBgColor img bgColorOption = Inr bgColor" for bgColor
    using that by (simp add: removeBackgroundLocal_def Let_def length_chromaLoop)
  show ?thesis
    using same never runs resolveBgColor_error [of img bgColorOption] by blast
qed

theorem removeBackgroundLocal_no_tolerance_check_witness:
  "resolveBgColor \<lparr>width = 1, height = 1, data = [255, 255, 255, 255]\<rparr> (Some ''white'')
       = Inr (Some 255, Some 255, Some 255)
   \<and> removeBackgroundLocal \<lparr>width = 1, height = 1, data = [255, 255, 255, 255]\<rparr> (Some ''white'') (Some 300)
      \<noteq> Inl InvalidTolerance
   \<and> (\<exists>out. removeBackgroundLocal \<lparr>width = 1, height = 1, data = [255, 255, 255, 255]\<rparr>
               (Some ''white'') (Some 300) = Inr out
          \<and> width out = 1 \<and> height out = 1
          \<and> length (data out) = length [255, 255, 255, 255 :: byte])
   \<and> resolveBgColor \<lparr>width = 1, height = 1, data = [255, 255, 255, 255]\<rparr> (Some ''#12'')
       = Inl (InvalidColor ''#12'')
   \<and> removeBackgroundLocal \<lparr>width = 1, height = 1, data = [255, 255, 255, 255]\<rparr> (Some ''#12'') (Some 300)
       = Inl (InvalidColor ''#12'')"
proof -
  let ?img = "\<lparr>width = 1, height = 1, data = [255, 255, 255, 255 :: byte]\<rparr>"
  note t = removeBackgroundLocal_no_tolerance_check [of ?img "Some ''white''" "Some 300"]
  note t' = removeBackgroundLocal_no_tolerance_check [of ?img "Some ''#12''" "Some 300"]
  have r: "resolveBgColor ?img (Some ''white'') = Inr (Some 255, Some 255, Some 255)"
    by (simp add: resolveBgColor_def parseColor_def someColor_def)
  have r': "resolveBgColor ?img (Some ''#12'') = Inl (InvalidColor ''#12'')"
    by (simp add: resolveBgColor_def parseColor_def Let_def)
  have "\<exists>out. removeBackgroundLocal ?img (Some ''white'') (Some 300) = Inr out
          \<and> width out = 1 \<and> height out = 1
          \<and> length (data out) = length [255, 255, 255, 255 :: byte]"
    using t r by simp
  moreover have "removeBackgroundLocal ?img (Some ''#12'') (Some 300) = Inl (InvalidColor ''#12'')"
    using t' r' by blast
  ultimately show ?thesis using t r r' by blast
qed

end
